theory Spec2Isabelle
  imports Main "HOL-Library.Word" "HOL-Library.AList"
begin

section \<open>Strings\<close>

text \<open>
  A JavaScript string is a sequence of UTF-16 code units: \<open>s.length\<close> counts code units
  and \<open>s.slice(0, n)\<close> keeps the first \<open>n\<close> of them. The strings whose length, prefix
  or blanks matter (the text and the attribute values of DOM elements) are lists of 16-bit
  words. Names that the code only compares or passes on (tag names, attribute names,
  request ids, URLs, report names) are plain \<open>string\<close>s.
\<close>

type_synonym jsstring = "16 word list"

definition utf16 :: "string \<Rightarrow> jsstring" where
  "utf16 s = map of_char s"

text \<open>
  \<open>String.prototype.trim\<close> removes the code units of ECMAScript's WhiteSpace and
  LineTerminator productions from both ends.
\<close>

definition isWhiteSpace :: "16 word \<Rightarrow> bool" where
  "isWhiteSpace c =
     (c = 0x9 \<or> c = 0xA \<or> c = 0xB \<or> c = 0xC \<or> c = 0xD \<or> c = 0x20 \<or> c = 0xA0 \<or>
      c = 0x1680 \<or> (0x2000 \<le> c \<and> c \<le> 0x200A) \<or> c = 0x2028 \<or> c = 0x2029 \<or>
      c = 0x202F \<or> c = 0x205F \<or> c = 0x3000 \<or> c = 0xFEFF)"

definition trim :: "jsstring \<Rightarrow> jsstring" where
  "trim s = rev (dropWhile isWhiteSpace (rev (dropWhile isWhiteSpace s)))"

section \<open>The request tracker\<close>

text \<open>
  \<open>RequestType\<close>, \<open>RequestEventKind\<close>, \<open>RequestDetails\<close> and \<open>RequestEvent\<close> of the
  request collection module. An optional field is an \<open>option\<close>, \<open>None\<close> for
  \<open>undefined\<close>. Clock readings (\<open>performance.now()\<close>) and durations are milliseconds,
  taken as integers. The field \<open>method\<close> is \<open>httpMethod\<close> here.
\<close>

datatype RequestType = FETCH | XHR

datatype RequestEventKind = Start | End

record RequestDetails =
  type :: RequestType
  httpMethod :: string
  url :: string
  status :: "int option"
  response :: "string option"
  responseType :: "string option"
  startTime :: int
  duration :: int
  traceId :: "int option"

record RequestEvent =
  kind :: RequestEventKind
  details :: RequestDetails
  requestId :: string

text \<open>
  \<open>request.status === 0 && request.responseType !== 'opaque'\<close>: strict equality, so an
  undefined status is not \<open>0\<close> and an undefined response type is not \<open>'opaque'\<close>.
\<close>

definition isRejected :: "RequestDetails \<Rightarrow> bool" where
  "isRejected request = (status request = Some 0 \<and> responseType request \<noteq> Some ''opaque'')"

text \<open>\<open>typeof request.status === 'number' && request.status >= 500\<close>\<close>

definition isServerError :: "RequestDetails \<Rightarrow> bool" where
  "isServerError request =
     (case status request of None \<Rightarrow> False | Some n \<Rightarrow> n \<ge> 500)"

section \<open>The content of the clicked element\<close>

text \<open>
  What the code reads of a DOM element: its tag name, its \<open>textContent\<close> (\<open>null\<close> is
  \<open>None\<close>), its attributes (\<open>getAttribute\<close> is \<open>null\<close> for an attribute the element
  does not have), the \<open>value\<close> property (\<open>inputValue\<close>) and the parent element.
\<close>

datatype Element = Element
  (tagName: string)
  (textContent: "jsstring option")
  (attributes: "(string \<times> jsstring) list")
  (inputValue: "jsstring option")
  (parentElement: "Element option")

definition getAttribute :: "Element \<Rightarrow> string \<Rightarrow> jsstring option" where
  "getAttribute element a = map_of (attributes element) a"

definition strLengthLimit :: "jsstring \<Rightarrow> jsstring" where
  "strLengthLimit s = (if length s > 400 then take 400 s @ utf16 '' [...]'' else s)"

text \<open>
  The generator \<open>iterateContentCandidates\<close> has no effect but its values, so it is the
  list of the values it yields, in the order it yields them.
\<close>

fun iterateContentCandidates :: "Element \<Rightarrow> jsstring option list" where
  "iterateContentCandidates (Element tag txt attrs v parent) =
     [txt] @
     (if tag = ''INPUT'' then
        (let type = map_of attrs ''type'' in
         if type = Some (utf16 ''button'') \<or> type = Some (utf16 ''submit'') then [v] else [])
      else []) @
     [map_of attrs ''aria-label'', map_of attrs ''alt'', map_of attrs ''title'',
      map_of attrs ''placeholder''] @
     (case parent of
        None \<Rightarrow> []
      | Some p \<Rightarrow> iterateContentCandidates p)"

text \<open>The \<open>while\<close> loop of \<open>getElementContent\<close> over the values of the iterator.\<close>

fun firstContent :: "jsstring option list \<Rightarrow> jsstring option" where
  "firstContent [] = None"
| "firstContent (None # rest) = firstContent rest"
| "firstContent (Some content # rest) =
     (let trimedContent = trim content in
      if trimedContent \<noteq> [] then Some (strLengthLimit trimedContent)
      else firstContent rest)"

definition getElementContent :: "Element \<Rightarrow> jsstring option" where
  "getElementContent element = firstContent (iterateContentCandidates element)"

text \<open>
  The order of the candidates, said in words: for one element, its text, then the value of an
  \<open>INPUT\<close> of type \<open>button\<close> or \<open>submit\<close>, then the four attributes; then the same for
  each ancestor, nearest first.
\<close>

definition ownCandidates :: "Element \<Rightarrow> jsstring option list" where
  "ownCandidates e =
     textContent e #
     (if tagName e = ''INPUT'' \<and>
         (getAttribute e ''type'' = Some (utf16 ''button'') \<or>
          getAttribute e ''type'' = Some (utf16 ''submit''))
      then [inputValue e] else []) @
     map (getAttribute e) [''aria-label'', ''alt'', ''title'', ''placeholder'']"

fun selfAndAncestors :: "Element \<Rightarrow> Element list" where
  "selfAndAncestors (Element tag txt attrs v parent) =
     Element tag txt attrs v parent #
     (case parent of None \<Rightarrow> [] | Some p \<Rightarrow> selfAndAncestors p)"

definition candidateStrings :: "Element \<Rightarrow> jsstring list" where
  "candidateStrings e = List.map_filter id (concat (map ownCandidates (selfAndAncestors e)))"

section \<open>The wrapped fetch\<close>

text \<open>
  The function that \<open>trackFetch\<close> installs as \<open>window.fetch\<close>. Its first argument is a
  URL string or a request object (URL and method); \<open>init\<close> is optional, and so is
  the method in it.
\<close>

datatype RequestInfo = UrlString string | RequestObject string string

record RequestInit =
  initMethod :: "string option"

text \<open>
  \<open>response.clone().text()\<close> gives the text, or throws or rejects with a value \<open>e\<close>, kept
  here as the string that \<open>`${e}`\<close> makes of it, or stays pending for ever.
\<close>

datatype TextResult = TextIs string | TextThrows string | TextPending

datatype Response = Response (responseStatus: int) (responseKind: string) (responseText: TextResult)

text \<open>
  A value that a promise settles with, as far as \<open>reportFetch\<close> tells one from another:
  a primitive (a string, a number, \<open>undefined\<close>; also \<open>null\<close>), on which \<open>'stack' in value\<close> raises a
  \<open>TypeError\<close>; an object that has a \<open>stack\<close> property or is an instance of \<open>Error\<close>, of a
  type \<open>'e\<close> of which the model knows nothing; an object that is neither and has a \<open>status\<close>
  property, a response; any other object. The promise of the original \<open>fetch\<close> is the way
  it settles: it fulfils with a response, or rejects with any value.
\<close>

datatype 'e JsValue = Primitive | ErrorObject 'e | ResponseObject Response | OtherObject

datatype 'e Promise = Pending | Fulfilled Response | Rejected "'e JsValue"

datatype ReportError = InTypeError

datatype WrapperError = UrlTypeError

text \<open>
  \<open>(init && init.method) || (typeof input === 'object' && input.method) || 'GET'\<close>: an empty
  string is falsy.
\<close>

definition fetchMethod :: "RequestInfo \<Rightarrow> RequestInit option \<Rightarrow> string" where
  "fetchMethod input init =
     (let fromInit = (case init of None \<Rightarrow> None | Some i \<Rightarrow> initMethod i);
          fromInput = (case input of UrlString u \<Rightarrow> None | RequestObject u m \<Rightarrow> Some m)
      in if fromInit \<noteq> None \<and> fromInit \<noteq> Some [] then the fromInit
         else if fromInput \<noteq> None \<and> fromInput \<noteq> Some [] then the fromInput
         else ''GET'')"

text \<open>\<open>(typeof input === 'object' && input.url) || (input as string)\<close>, for URLs that are not empty.\<close>

definition fetchUrl :: "RequestInfo \<Rightarrow> string" where
  "fetchUrl input = (case input of UrlString u \<Rightarrow> u | RequestObject u m \<Rightarrow> u)"

text \<open>
  \<open>reportFetch\<close>, run when the promise settles, at clock reading \<open>now\<close>, with the value the
  promise settled with. The stack trace functions are not part of the module:
  \<open>stackString\<close> stands for \<open>toStackTraceString (computeStackTrace e)\<close>. The result is the
  list of the events it publishes on the observable, or the exception it raises.
\<close>

definition reportFetch ::
  "('e \<Rightarrow> string) \<Rightarrow> string \<Rightarrow> string \<Rightarrow> string \<Rightarrow> int \<Rightarrow> int option \<Rightarrow> int \<Rightarrow>
   'e JsValue \<Rightarrow> ReportError + RequestEvent list" where
  "reportFetch stackString rid m u startT tid now settled =
     (case settled of
        Primitive \<Rightarrow> Inl InTypeError
      | ErrorObject e \<Rightarrow>
          Inr [\<lparr>kind = End,
            details = \<lparr>type = FETCH, httpMethod = m, url = u, status = Some 0,
              response = Some (stackString e), responseType = None,
              startTime = startT, duration = now - startT, traceId = tid\<rparr>,
            requestId = rid\<rparr>]
      | ResponseObject r \<Rightarrow>
          (case (case responseText r of
                   TextIs t \<Rightarrow> Some t
                 | TextThrows e \<Rightarrow> Some (''Unable to retrieve response: '' @ e)
                 | TextPending \<Rightarrow> None) of
             None \<Rightarrow> Inr []
           | Some t \<Rightarrow>
               Inr [\<lparr>kind = End,
                 details = \<lparr>type = FETCH, httpMethod = m, url = u, status = Some (responseStatus r),
                   response = Some t, responseType = Some (responseKind r),
                   startTime = startT, duration = now - startT, traceId = tid\<rparr>,
                 requestId = rid\<rparr>])
      | OtherObject \<Rightarrow> Inr [])"

text \<open>
  What a call of \<open>reportFetch\<close> from \<open>responsePromise.then\<close> adds to the events: an
  exception inside the \<open>async\<close> function rejects a promise that nobody reads, and
  publishes nothing.
\<close>

definition published :: "ReportError + RequestEvent list \<Rightarrow> RequestEvent list" where
  "published r = (case r of Inl e \<Rightarrow> [] | Inr evs \<Rightarrow> evs)"

text \<open>
  The wrapper, installed when \<open>window.fetch\<close> exists: it publishes the start event, calls
  the original \<open>fetch\<close>, attaches \<open>reportFetch\<close> to both outcomes of the promise and
  returns the promise it got. \<open>monitor\<close>, which reports an exception of the function it
  wraps, is not part of the module.
  \<open>normalizeUrl\<close> is \<open>new URL(url, origin).href\<close>, which raises a \<open>TypeError\<close> (\<open>None\<close>) for
  a URL it cannot parse; \<open>rid\<close> is the value of \<open>generateUUID()\<close>, \<open>tid\<close> of
  \<open>getTraceId()\<close>, \<open>startT\<close> and \<open>now\<close> the clock at the call and when the promise settles.
  The result is the events published, in order, and the promise returned.
\<close>

definition trackFetch ::
  "(string \<Rightarrow> string option) \<Rightarrow> ('e \<Rightarrow> string) \<Rightarrow> string \<Rightarrow> int option \<Rightarrow> int \<Rightarrow> int \<Rightarrow>
   (RequestInfo \<Rightarrow> RequestInit option \<Rightarrow> 'e Promise) \<Rightarrow> RequestInfo \<Rightarrow> RequestInit option \<Rightarrow>
   WrapperError + RequestEvent list \<times> 'e Promise" where
  "trackFetch normalizeUrl stackString rid tid startT now originalFetch input init =
     (let m = fetchMethod input init in
      case normalizeUrl (fetchUrl input) of
        None \<Rightarrow> Inl UrlTypeError
      | Some u \<Rightarrow>
          (let started =
                 \<lparr>kind = Start,
                  details = \<lparr>type = FETCH, httpMethod = m, url = u, status = None, response = None,
                    responseType = None, startTime = startT, duration = 0, traceId = tid\<rparr>,
                  requestId = rid\<rparr>;
               responsePromise = originalFetch input init
           in Inr (started #
                   (case responsePromise of
                      Pending \<Rightarrow> []
                    | Fulfilled r \<Rightarrow>
                        published (reportFetch stackString rid m u startT tid now (ResponseObject r))
                    | Rejected v \<Rightarrow>
                        published (reportFetch stackString rid m u startT tid now v)),
                   responsePromise)))"

text \<open>
  For the examples: a page at \<open>https://x.test\<close>, a \<open>fetch\<close> that rejects with \<open>v\<close> and one
  that fulfils with \<open>r\<close>.
\<close>

definition exampleNormalizeUrl :: "string \<Rightarrow> string option" where
  "exampleNormalizeUrl u = Some (''https://x.test'' @ u)"

definition exampleStackString :: "string \<Rightarrow> string" where
  "exampleStackString e = ''fetch failed: '' @ e"

definition rejectingFetch :: "'e JsValue \<Rightarrow> RequestInfo \<Rightarrow> RequestInit option \<Rightarrow> 'e Promise" where
  "rejectingFetch v input init = Rejected v"

definition fulfillingFetch :: "Response \<Rightarrow> RequestInfo \<Rightarrow> RequestInit option \<Rightarrow> 'e Promise" where
  "fulfillingFetch r input init = Fulfilled r"

section \<open>The activity correlator\<close>

text \<open>
  The events of the lifecycle bus that \<open>trackPageChanges\<close> subscribes to. Of a performance
  entry the code reads the entry type, the name and, when the entry has one, the initiator
  type.
\<close>

record PerformanceEntry =
  entryType :: string
  name :: string
  initiatorType :: "string option"

datatype LifeCycleEvent =
  DOM_MUTATED
| PERFORMANCE_ENTRY_COLLECTED PerformanceEntry
| REQUEST_COLLECTED RequestEvent

text \<open>
  The user action collection comes in two revisions. In the first, \<open>newUserAction\<close> returns
  an observable of lifecycle events (extended, aborted, ended) and \<open>trackPageChanges\<close> keeps
  the pending requests in a \<open>Map\<close> and reports a reason and details with each change; its
  definitions end in \<open>_obs\<close>. In the second, \<open>newUserAction\<close> returns a promise and
  \<open>trackPageChanges\<close> keeps a \<open>Set\<close> of request ids and reports \<open>isBusy\<close> alone; its
  definitions end in \<open>_promise\<close>.
\<close>

text \<open>\<open>ChangeEvent\<close>: \<open>isBusy\<close>, \<open>type\<close> and \<open>details\<close>.\<close>

record ChangeEvent =
  isBusy :: bool
  changeType :: string
  changeDetails :: "string list option"

definition notifyChange_obs ::
  "(string \<times> RequestDetails) list \<Rightarrow> string \<Rightarrow> string list option \<Rightarrow> ChangeEvent" where
  "notifyChange_obs pending ty ds =
     \<lparr>isBusy = length pending > 0, changeType = ty, changeDetails = ds\<rparr>"

text \<open>
  What the three subscriptions of \<open>trackPageChanges\<close> do with one event of the bus: the new
  pending requests, and the change event notified, if any. \<open>Map.delete\<close> answers whether the
  key was there.
\<close>

fun trackPageChanges_obs ::
  "(string \<times> RequestDetails) list \<Rightarrow> LifeCycleEvent \<Rightarrow>
   (string \<times> RequestDetails) list \<times> ChangeEvent option" where
  "trackPageChanges_obs pending DOM_MUTATED =
     (pending, Some (notifyChange_obs pending ''dom_mutated'' None))"
| "trackPageChanges_obs pending (PERFORMANCE_ENTRY_COLLECTED entry) =
     (if entryType entry \<noteq> ''resource'' then (pending, None)
      else
        (let ds = (case initiatorType entry of
                     None \<Rightarrow> []
                   | Some i \<Rightarrow> [''initiatorType: '' @ i]) @
                  (if name entry \<noteq> [] then [''name: '' @ name entry] else [])
         in (pending, Some (notifyChange_obs pending ''performance_entry_collected'' (Some ds)))))"
| "trackPageChanges_obs pending (REQUEST_COLLECTED requestEvent) =
     (if kind requestEvent = Start then
        (let p = AList.update (requestId requestEvent) (details requestEvent) pending
         in (p, Some (notifyChange_obs p ''request_start''
                        (Some [''Url: '' @ url (details requestEvent)]))))
      else
        (let deleted = (map_of pending (requestId requestEvent) \<noteq> None);
             p = AList.delete (requestId requestEvent) pending
         in if deleted
            then (p, Some (notifyChange_obs p ''request_end''
                             (Some [''Url: '' @ url (details requestEvent)])))
            else (p, None)))"

text \<open>The second revision: every performance entry is a change, and a change is \<open>isBusy\<close>.\<close>

definition notifyChange_promise :: "string set \<Rightarrow> bool" where
  "notifyChange_promise pending = (pending \<noteq> {})"

fun trackPageChanges_promise ::
  "string set \<Rightarrow> LifeCycleEvent \<Rightarrow> string set \<times> bool option" where
  "trackPageChanges_promise pending DOM_MUTATED = (pending, Some (notifyChange_promise pending))"
| "trackPageChanges_promise pending (PERFORMANCE_ENTRY_COLLECTED entry) =
     (pending, Some (notifyChange_promise pending))"
| "trackPageChanges_promise pending (REQUEST_COLLECTED requestEvent) =
     (if kind requestEvent = Start then
        (let p = insert (requestId requestEvent) pending
         in (p, Some (notifyChange_promise p)))
      else
        (let deleted = (requestId requestEvent \<in> pending);
             p = pending - {requestId requestEvent}
         in if deleted then (p, Some (notifyChange_promise p)) else (p, None)))"

text \<open>A sequence of bus events through the correlator: the changes notified, in order.\<close>

fun changes_obs ::
  "(string \<times> RequestDetails) list \<Rightarrow> LifeCycleEvent list \<Rightarrow>
   (string \<times> RequestDetails) list \<times> ChangeEvent list" where
  "changes_obs pending [] = (pending, [])"
| "changes_obs pending (ev # evs) =
     (case trackPageChanges_obs pending ev of
        (p, c) \<Rightarrow>
          (case changes_obs p evs of
             (p', cs) \<Rightarrow> (p', (case c of None \<Rightarrow> [] | Some x \<Rightarrow> [x]) @ cs)))"

fun changes_promise :: "string set \<Rightarrow> LifeCycleEvent list \<Rightarrow> string set \<times> bool list" where
  "changes_promise pending [] = (pending, [])"
| "changes_promise pending (ev # evs) =
     (case trackPageChanges_promise pending ev of
        (p, c) \<Rightarrow>
          (case changes_promise p evs of
             (p', cs) \<Rightarrow> (p', (case c of None \<Rightarrow> [] | Some x \<Rightarrow> [x]) @ cs)))"

text \<open>Whether an event of the bus is the start of the request \<open>rid\<close>.\<close>

definition startsRequest :: "string \<Rightarrow> LifeCycleEvent \<Rightarrow> bool" where
  "startsRequest rid ev =
     (case ev of REQUEST_COLLECTED e \<Rightarrow> kind e = Start \<and> requestId e = rid | _ \<Rightarrow> False)"

text \<open>A finished request, for the examples.\<close>

definition exampleDetails :: RequestDetails where
  "exampleDetails =
     \<lparr>type = XHR, httpMethod = ''GET'', url = ''https://x.test/a'', status = Some 200,
      response = Some ''ok'', responseType = None, startTime = 10, duration = 240,
      traceId = None\<rparr>"

definition exampleEnd :: RequestEvent where
  "exampleEnd = \<lparr>kind = End, details = exampleDetails, requestId = ''r1''\<rparr>"

section \<open>The interaction detector\<close>

definition IDLE_DELAY :: int where
  "IDLE_DELAY = 100"

definition BUSY_DELAY :: int where
  "BUSY_DELAY = 100"

text \<open>
  \<open>UserActionLifecycleEvent\<close>: the kind is the constructor; the arguments are \<open>id\<close> and
  \<open>time\<close>, and for \<open>Extended\<close> also \<open>reason\<close> and \<open>details\<close>.
\<close>

datatype UserActionLifecycleEvent =
  Ended string int
| Aborted string int
| Extended string int string "string list option"

text \<open>
  What happens to one interaction after the click: time passes, the event loop runs the timer
  callbacks that are due, or somebody notifies an event on the lifecycle bus. A timer set
  with \<open>setTimeout (f, d)\<close> at clock reading \<open>t\<close> is pending with the deadline \<open>t + d\<close>; it
  runs at the first \<open>RunTimers\<close> at which the clock has reached the deadline, unless
  \<open>clearTimeout\<close> removed it before. So \<open>[Elapse 100, RunTimers]\<close> is a timer that fires on
  time and \<open>[Elapse 100, Notify ev, RunTimers]\<close> one that fires after an event that arrived
  at the same clock reading.
\<close>

datatype Step = Elapse nat | RunTimers | Notify LifeCycleEvent

text \<open>
  The state of one interaction, shared by both revisions of \<open>newUserAction\<close>: the clock
  (\<open>performance.now()\<close>), the \<open>id\<close> of the interaction, whether the subscriptions of
  \<open>trackPageChanges\<close> are still active (until \<open>stop()\<close>), and the two timers: the deadline
  of \<open>validationTimeoutId\<close>, and the deadline of \<open>idleTimeoutId\<close> with the time that its
  callback has captured. A timer that was cleared or has run is \<open>None\<close>. The field
  \<open>userActionId\<close> is the module's variable of that name as the code of this interaction
  finds it and leaves it: the variable is one for the whole page, and a page (below) hands
  its value to each interaction in turn and takes it back.
\<close>

record Detector =
  clock :: int
  actionId :: string
  userActionId :: "string option"
  subscribed :: bool
  validationTimeoutId :: "int option"
  idleTimeoutId :: "(int \<times> int) option"

subsection \<open>The revision with an observable\<close>

text \<open>
  \<open>result\<close> lists the events notified on the observable that \<open>newUserAction\<close> returns, each
  with the clock reading at which it was notified.
\<close>

record ObservableAction = Detector +
  pendingRequests :: "(string \<times> RequestDetails) list"
  result :: "(int \<times> UserActionLifecycleEvent) list"

text \<open>\<open>newUserAction\<close>, called at clock reading \<open>t\<close>, with \<open>uuid\<close> the value of \<open>generateUUID()\<close>.\<close>

definition newUserAction_obs :: "string \<Rightarrow> int \<Rightarrow> ObservableAction" where
  "newUserAction_obs uuid t =
     \<lparr>clock = t, actionId = uuid, userActionId = Some uuid, subscribed = True,
      validationTimeoutId = Some (t + BUSY_DELAY), idleTimeoutId = None,
      pendingRequests = [], result = []\<rparr>"

text \<open>The callback of the validation timer.\<close>

definition validationTimeout_obs :: "ObservableAction \<Rightarrow> ObservableAction" where
  "validationTimeout_obs s =
     s\<lparr>validationTimeoutId := None,
       result := result s @ [(clock s, Aborted (actionId s) (clock s))],
       subscribed := False\<rparr>"

text \<open>The callback of the idle timer; \<open>time\<close> is the value it has captured.\<close>

definition idleTimeout_obs :: "int \<Rightarrow> ObservableAction \<Rightarrow> ObservableAction" where
  "idleTimeout_obs time s =
     s\<lparr>idleTimeoutId := None,
       subscribed := False,
       result := result s @ [(clock s, Ended (actionId s) time)],
       userActionId := None\<rparr>"

text \<open>The subscriber of \<open>changesObservable\<close>.\<close>

definition onChange_obs :: "ObservableAction \<Rightarrow> ChangeEvent \<Rightarrow> ObservableAction" where
  "onChange_obs s c =
     (let time = clock s in
      s\<lparr>validationTimeoutId := None,
        idleTimeoutId := (if \<not> isBusy c then Some (time + IDLE_DELAY, time) else None),
        result := result s @
          [(time, Extended (actionId s) time (changeType c) (changeDetails c))]\<rparr>)"

definition runTimers_obs :: "ObservableAction \<Rightarrow> ObservableAction" where
  "runTimers_obs s =
     (let s1 = (case validationTimeoutId s of
                  None \<Rightarrow> s
                | Some d \<Rightarrow> if d \<le> clock s then validationTimeout_obs s else s)
      in case idleTimeoutId s1 of
           None \<Rightarrow> s1
         | Some (d, time) \<Rightarrow> if d \<le> clock s1 then idleTimeout_obs time s1 else s1)"

text \<open>
  Modelled from the spec: the lifecycle bus (\<open>LifeCycle\<close>, \<open>Subscription\<close>) is not among the
  sources. Per the spec each subscriber can be unsubscribed on its own and a notification
  reaches the subscribers registered at that moment, so after \<open>stop()\<close> an event of the bus
  no longer reaches \<open>trackPageChanges\<close>; and two notifications on the same bus do not
  interleave, so a step runs to completion before the next one starts (a subscriber of the
  user actions notifies no event of the bus from inside its callback).
\<close>

fun step_obs :: "ObservableAction \<Rightarrow> Step \<Rightarrow> ObservableAction" where
  "step_obs s (Elapse d) = s\<lparr>clock := clock s + int d\<rparr>"
| "step_obs s RunTimers = runTimers_obs s"
| "step_obs s (Notify ev) =
     (if subscribed s then
        (case trackPageChanges_obs (pendingRequests s) ev of
           (p, None) \<Rightarrow> s\<lparr>pendingRequests := p\<rparr>
         | (p, Some c) \<Rightarrow> onChange_obs (s\<lparr>pendingRequests := p\<rparr>) c)
      else s)"

definition run_obs :: "ObservableAction \<Rightarrow> Step list \<Rightarrow> ObservableAction" where
  "run_obs s steps = foldl step_obs s steps"

text \<open>
  The payload of \<open>USER_ACTION_COLLECTED\<close>: \<open>startTime\<close>, \<open>context\<close> (\<open>content\<close>, \<open>element\<close>,
  \<open>details\<close>, \<open>reason\<close>), \<open>duration\<close>, \<open>name\<close>, \<open>userActionId\<close> and \<open>id\<close>. A field that the object
  literal does not have is \<open>None\<close>.
\<close>

record Context =
  ctx_content :: "jsstring option"
  ctx_element :: "jsstring option"
  ctx_details :: "string list option"
  ctx_reason :: "string option"

record UserAction =
  ua_startTime :: int
  ua_context :: Context
  ua_duration :: "int option"
  ua_name :: string
  ua_userActionId :: "string option"
  ua_id :: "string option"

text \<open>The subscriber that the click handler attaches to the observable.\<close>

fun userActionCollected_obs ::
  "int \<Rightarrow> jsstring option \<Rightarrow> jsstring option \<Rightarrow> UserActionLifecycleEvent \<Rightarrow> UserAction" where
  "userActionCollected_obs startT content element (Aborted i t) =
     \<lparr>ua_startTime = startT,
      ua_context = \<lparr>ctx_content = content, ctx_element = element,
                    ctx_details = None, ctx_reason = None\<rparr>,
      ua_duration = None, ua_name = ''click ignored'', ua_userActionId = Some i, ua_id = None\<rparr>"
| "userActionCollected_obs startT content element (Extended i t reason ds) =
     \<lparr>ua_startTime = t,
      ua_context = \<lparr>ctx_content = None, ctx_element = None,
                    ctx_details = ds, ctx_reason = Some reason\<rparr>,
      ua_duration = Some 0, ua_name = ''click extended'', ua_userActionId = Some i,
      ua_id = None\<rparr>"
| "userActionCollected_obs startT content element (Ended i t) =
     \<lparr>ua_startTime = startT,
      ua_context = \<lparr>ctx_content = content, ctx_element = element,
                    ctx_details = None, ctx_reason = None\<rparr>,
      ua_duration = Some (t - startT), ua_name = ''click'', ua_userActionId = None,
      ua_id = Some i\<rparr>"

text \<open>
  The click listener of \<open>startUserActionCollection\<close>, for a click at clock reading \<open>t\<close>
  followed by \<open>steps\<close>: the user actions it notifies on the bus, each with the clock reading
  at which it is notified. \<open>target\<close> is \<open>None\<close> when the target of the event is not an
  element; \<open>getElementAsString\<close> serialises the DOM and is taken as given.
\<close>

definition clickContext ::
  "(Element \<Rightarrow> jsstring) \<Rightarrow> Element option \<Rightarrow> jsstring option \<times> jsstring option" where
  "clickContext getElementAsString target =
     (case target of
        None \<Rightarrow> (None, None)
      | Some e \<Rightarrow>
          ((if getElementAsString e \<noteq> [] then Some (getElementAsString e) else None),
           getElementContent e))"

definition startUserActionCollection_obs ::
  "(Element \<Rightarrow> jsstring) \<Rightarrow> string \<Rightarrow> Element option \<Rightarrow> int \<Rightarrow> Step list \<Rightarrow>
   (int \<times> UserAction) list" where
  "startUserActionCollection_obs getElementAsString uuid target t steps =
     (case clickContext getElementAsString target of
        (element, content) \<Rightarrow>
          map (\<lambda>(at, ev). (at, userActionCollected_obs t content element ev))
            (result (run_obs (newUserAction_obs uuid t) steps)))"

subsection \<open>The revision with a promise\<close>

text \<open>
  \<open>resolved\<close> lists the calls of the promise's \<open>resolve\<close>, each with the clock reading of the
  call; the promise settles with the first.
\<close>

record PromiseAction = Detector +
  pendingIds :: "string set"
  resolved :: "(int \<times> (string \<times> int) option) list"

text \<open>
  \<open>newUserAction\<close>, called at clock reading \<open>t\<close>; \<open>cell\<close> is the value that the module's
  \<open>userActionId\<close> has at that moment, which the call leaves as it is.
\<close>

definition newUserAction_promise :: "string \<Rightarrow> string option \<Rightarrow> int \<Rightarrow> PromiseAction" where
  "newUserAction_promise uuid cell t =
     \<lparr>clock = t, actionId = uuid, userActionId = cell, subscribed = True,
      validationTimeoutId = Some (t + BUSY_DELAY), idleTimeoutId = None,
      pendingIds = {}, resolved = []\<rparr>"

definition validationTimeout_promise :: "PromiseAction \<Rightarrow> PromiseAction" where
  "validationTimeout_promise s =
     s\<lparr>validationTimeoutId := None,
       resolved := resolved s @ [(clock s, None)],
       subscribed := False\<rparr>"

definition idleTimeout_promise :: "int \<Rightarrow> PromiseAction \<Rightarrow> PromiseAction" where
  "idleTimeout_promise end s =
     s\<lparr>idleTimeoutId := None,
       subscribed := False,
       resolved := resolved s @ [(clock s, Some (actionId s, end))],
       userActionId := None\<rparr>"

definition onChange_promise :: "PromiseAction \<Rightarrow> bool \<Rightarrow> PromiseAction" where
  "onChange_promise s busy =
     (let end = clock s in
      s\<lparr>userActionId := Some (actionId s),
        validationTimeoutId := None,
        idleTimeoutId := (if \<not> busy then Some (end + IDLE_DELAY, end) else None)\<rparr>)"

definition runTimers_promise :: "PromiseAction \<Rightarrow> PromiseAction" where
  "runTimers_promise s =
     (let s1 = (case validationTimeoutId s of
                  None \<Rightarrow> s
                | Some d \<Rightarrow> if d \<le> clock s then validationTimeout_promise s else s)
      in case idleTimeoutId s1 of
           None \<Rightarrow> s1
         | Some (d, end) \<Rightarrow> if d \<le> clock s1 then idleTimeout_promise end s1 else s1)"

text \<open>
  Modelled from the spec: as in \<open>step_obs\<close>, an event of the bus reaches \<open>trackPageChanges\<close>
  only until \<open>stop()\<close>.
\<close>

fun step_promise :: "PromiseAction \<Rightarrow> Step \<Rightarrow> PromiseAction" where
  "step_promise s (Elapse d) = s\<lparr>clock := clock s + int d\<rparr>"
| "step_promise s RunTimers = runTimers_promise s"
| "step_promise s (Notify ev) =
     (if subscribed s then
        (case trackPageChanges_promise (pendingIds s) ev of
           (p, None) \<Rightarrow> s\<lparr>pendingIds := p\<rparr>
         | (p, Some busy) \<Rightarrow> onChange_promise (s\<lparr>pendingIds := p\<rparr>) busy)
      else s)"

definition run_promise :: "PromiseAction \<Rightarrow> Step list \<Rightarrow> PromiseAction" where
  "run_promise s steps = foldl step_promise s steps"

text \<open>
  The click listener of the second revision: it awaits the promise and notifies one user
  action, \<open>click\<close> with a duration or \<open>click ignored\<close> without.
\<close>

definition startUserActionCollection_promise ::
  "(Element \<Rightarrow> jsstring) \<Rightarrow> string \<Rightarrow> string option \<Rightarrow> Element option \<Rightarrow> int \<Rightarrow> Step list \<Rightarrow>
   (int \<times> UserAction) list" where
  "startUserActionCollection_promise getElementAsString uuid cell target t steps =
     (case clickContext getElementAsString target of
        (element, content) \<Rightarrow>
          (case resolved (run_promise (newUserAction_promise uuid cell t) steps) of
             [] \<Rightarrow> []
           | (at, None) # _ \<Rightarrow>
               [(at, \<lparr>ua_startTime = t,
                      ua_context = \<lparr>ctx_content = content, ctx_element = element,
                                    ctx_details = None, ctx_reason = None\<rparr>,
                      ua_duration = None, ua_name = ''click ignored'',
                      ua_userActionId = None, ua_id = None\<rparr>)]
           | (at, Some (i, end)) # _ \<Rightarrow>
               [(at, \<lparr>ua_startTime = t,
                      ua_context = \<lparr>ctx_content = content, ctx_element = element,
                                    ctx_details = None, ctx_reason = None\<rparr>,
                      ua_duration = Some (end - t), ua_name = ''click'',
                      ua_userActionId = None, ua_id = Some i\<rparr>)]))"

subsection \<open>The page and its interactions\<close>

text \<open>
  Every click starts an interaction of its own, and the interactions that are open at the
  same time share the lifecycle bus, the event loop and the module's variable
  \<open>userActionId\<close>. A page is the clock, that variable, and the interactions started so far,
  oldest first. \<open>getUserActionId\<close> returns the variable.
\<close>

record 'a Page =
  pageClock :: int
  userActionIdVar :: "string option"
  actions :: "'a list"

definition loadPage :: "int \<Rightarrow> 'a Page" where
  "loadPage t = \<lparr>pageClock = t, userActionIdVar = None, actions = []\<rparr>"

definition getUserActionId :: "'a Page \<Rightarrow> string option" where
  "getUserActionId pg = userActionIdVar pg"

text \<open>
  What happens on a page: a click (with the value of \<open>generateUUID()\<close>), or a step of the
  environment, which every interaction sees.
\<close>

datatype PageStep = Click string | Env Step

text \<open>
  One step of the environment for all interactions, in the order of their clicks, which is
  the order of their subscriptions to the bus: each interaction runs its own code \<open>f\<close> on
  the variable as the one before left it. The timer callbacks of different interactions
  run in this order too; each of them writes its own interaction and, at most,
  \<open>undefined\<close> to the variable, so their order among themselves makes no difference.
\<close>

fun deliver ::
  "('z Detector_scheme \<Rightarrow> Step \<Rightarrow> 'z Detector_scheme) \<Rightarrow> string option \<Rightarrow>
   'z Detector_scheme list \<Rightarrow> Step \<Rightarrow> string option \<times> 'z Detector_scheme list" where
  "deliver f cell [] st = (cell, [])"
| "deliver f cell (a # as) st =
     (let a' = f (a\<lparr>userActionId := cell\<rparr>) st in
      case deliver f (userActionId a') as st of
        (c, as') \<Rightarrow> (c, a' # as'))"

fun pageStep_obs :: "ObservableAction Page \<Rightarrow> PageStep \<Rightarrow> ObservableAction Page" where
  "pageStep_obs pg (Click uuid) =
     (let a = newUserAction_obs uuid (pageClock pg) in
      pg\<lparr>userActionIdVar := userActionId a, actions := actions pg @ [a]\<rparr>)"
| "pageStep_obs pg (Env st) =
     (case deliver step_obs (userActionIdVar pg) (actions pg) st of
        (c, as) \<Rightarrow>
          pg\<lparr>pageClock := pageClock pg + (case st of Elapse d \<Rightarrow> int d | _ \<Rightarrow> 0),
            userActionIdVar := c, actions := as\<rparr>)"

definition runPage_obs :: "ObservableAction Page \<Rightarrow> PageStep list \<Rightarrow> ObservableAction Page" where
  "runPage_obs pg steps = foldl pageStep_obs pg steps"

fun pageStep_promise :: "PromiseAction Page \<Rightarrow> PageStep \<Rightarrow> PromiseAction Page" where
  "pageStep_promise pg (Click uuid) =
     (let a = newUserAction_promise uuid (userActionIdVar pg) (pageClock pg) in
      pg\<lparr>userActionIdVar := userActionId a, actions := actions pg @ [a]\<rparr>)"
| "pageStep_promise pg (Env st) =
     (case deliver step_promise (userActionIdVar pg) (actions pg) st of
        (c, as) \<Rightarrow>
          pg\<lparr>pageClock := pageClock pg + (case st of Elapse d \<Rightarrow> int d | _ \<Rightarrow> 0),
            userActionIdVar := c, actions := as\<rparr>)"

definition runPage_promise :: "PromiseAction Page \<Rightarrow> PageStep list \<Rightarrow> PromiseAction Page" where
  "runPage_promise pg steps = foldl pageStep_promise pg steps"

text \<open>
  An interaction of the revision with a promise that is open and has received an activity
  signal: still subscribed, not resolved, its validation timer cleared (which only the
  subscriber of the changes does while the interaction is subscribed). An interaction whose
  idle timer is due. Then what holds of every interaction of a page whatever the variable
  is, what the variable is bound to, and the two together.
\<close>

definition signalled_promise :: "PromiseAction \<Rightarrow> bool" where
  "signalled_promise a \<longleftrightarrow> subscribed a \<and> validationTimeoutId a = None \<and> resolved a = []"

definition idleDue :: "'z Detector_scheme \<Rightarrow> bool" where
  "idleDue a =
     (validationTimeoutId a = None \<and>
      (case idleTimeoutId a of None \<Rightarrow> False | Some (d, time) \<Rightarrow> d \<le> clock a))"

definition sound_promise :: "PromiseAction \<Rightarrow> bool" where
  "sound_promise a \<longleftrightarrow>
     (validationTimeoutId a \<noteq> None \<longrightarrow> idleTimeoutId a = None \<and> subscribed a) \<and>
     (subscribed a \<longrightarrow> resolved a = []) \<and>
     (\<not> subscribed a \<longrightarrow> validationTimeoutId a = None \<and> idleTimeoutId a = None)"

definition bound_promise :: "string option \<Rightarrow> PromiseAction list \<Rightarrow> bool" where
  "bound_promise c as \<longleftrightarrow>
     (case c of
        None \<Rightarrow> True
      | Some x \<Rightarrow> \<exists>a \<in> set as. actionId a = x \<and> signalled_promise a)"

definition page_ok_promise :: "PromiseAction Page \<Rightarrow> bool" where
  "page_ok_promise pg \<longleftrightarrow>
     (\<forall>a \<in> set (actions pg). sound_promise a) \<and>
     bound_promise (userActionIdVar pg) (actions pg)"

subsection \<open>Reading the events of an interaction\<close>

text \<open>
  An extended event, a terminal event (ended or aborted), the \<open>id\<close> that an event carries,
  and an extended event of the interaction \<open>uid\<close> whose \<open>time\<close> is the clock reading at
  which it was notified.
\<close>

fun isExtended :: "UserActionLifecycleEvent \<Rightarrow> bool" where
  "isExtended (Extended i t r ds) = True"
| "isExtended _ = False"

fun isTerminal :: "UserActionLifecycleEvent \<Rightarrow> bool" where
  "isTerminal (Extended i t r ds) = False"
| "isTerminal _ = True"

fun extendedAt :: "string \<Rightarrow> int \<times> UserActionLifecycleEvent \<Rightarrow> bool" where
  "extendedAt uid (at, Extended i t r ds) = (i = uid \<and> t = at)"
| "extendedAt uid _ = False"

fun eventId :: "UserActionLifecycleEvent \<Rightarrow> string" where
  "eventId (Ended i t) = i"
| "eventId (Aborted i t) = i"
| "eventId (Extended i t r ds) = i"

text \<open>
  A step is quiet when it is not an activity signal for a correlator with no pending
  request: time passing, the timers, or an event of the bus for which \<open>trackPageChanges\<close>
  notifies no change. \<open>elapsed\<close> is the time that a list of steps takes.
\<close>

definition quiet_obs :: "Step \<Rightarrow> bool" where
  "quiet_obs st = (case st of Notify ev \<Rightarrow> snd (trackPageChanges_obs [] ev) = None | _ \<Rightarrow> True)"

definition quiet_promise :: "Step \<Rightarrow> bool" where
  "quiet_promise st =
     (case st of Notify ev \<Rightarrow> snd (trackPageChanges_promise {} ev) = None | _ \<Rightarrow> True)"

fun elapsed :: "Step list \<Rightarrow> nat" where
  "elapsed [] = 0"
| "elapsed (Elapse d # steps) = d + elapsed steps"
| "elapsed (st # steps) = elapsed steps"

text \<open>For the examples: a serialisation of elements, and the start of the request \<open>r1\<close>.\<close>

definition tagOnly :: "Element \<Rightarrow> jsstring" where
  "tagOnly e = utf16 (tagName e)"

definition exampleStart :: RequestEvent where
  "exampleStart =
     \<lparr>kind = Start,
      details = exampleDetails\<lparr>status := None, response := None, duration := 0\<rparr>,
      requestId = ''r1''\<rparr>"

text \<open>
  For the examples: three clicks whose interactions overlap. \<open>Z\<close> starts the request \<open>r1\<close>
  and stays busy; \<open>Y\<close> sees a mutation and ends at 100; \<open>A\<close> is clicked at 100, and at 150
  the request ends, which is a signal for \<open>Z\<close> alone. And a page after two clicks.
\<close>

definition overlappingClicks :: "PageStep list" where
  "overlappingClicks =
     [Click ''Z'', Env (Notify (REQUEST_COLLECTED exampleStart)),
      Click ''Y'', Env (Notify DOM_MUTATED), Env (Elapse 100), Env RunTimers,
      Click ''A'', Env (Elapse 50), Env (Notify (REQUEST_COLLECTED exampleEnd))]"

definition twoClicks :: "PromiseAction Page" where
  "twoClicks = runPage_promise (loadPage 0) [Click ''Z'', Click ''A'']"

subsection \<open>The phases of an interaction\<close>

text \<open>
  An interaction is in one of four phases: awaiting the first activity signal, with the
  validation timer pending; extending, after an activity signal, with the idle timer
  pending or not; aborted, after the validation timer has run; ended, after the idle timer
  has run. The phases are stated for each revision, for a click at clock reading \<open>t0\<close>.
\<close>

definition awaiting_promise :: "int \<Rightarrow> string option \<Rightarrow> PromiseAction \<Rightarrow> bool" where
  "awaiting_promise t0 cell s \<longleftrightarrow>
     validationTimeoutId s = Some (t0 + BUSY_DELAY) \<and> idleTimeoutId s = None \<and>
     resolved s = [] \<and> subscribed s \<and> userActionId s = cell"

definition extending_promise :: "PromiseAction \<Rightarrow> bool" where
  "extending_promise s \<longleftrightarrow>
     validationTimeoutId s = None \<and> subscribed s \<and> userActionId s = Some (actionId s) \<and>
     resolved s = []"

definition aborted_promise :: "int \<Rightarrow> string option \<Rightarrow> PromiseAction \<Rightarrow> bool" where
  "aborted_promise t0 cell s \<longleftrightarrow>
     \<not> subscribed s \<and> validationTimeoutId s = None \<and> idleTimeoutId s = None \<and>
     userActionId s = cell \<and>
     resolved s = [(fst (last (resolved s)), None)] \<and>
     t0 + BUSY_DELAY \<le> fst (last (resolved s))"

definition ended_promise :: "PromiseAction \<Rightarrow> bool" where
  "ended_promise s \<longleftrightarrow>
     \<not> subscribed s \<and> validationTimeoutId s = None \<and> idleTimeoutId s = None \<and>
     userActionId s = None \<and> length (resolved s) = 1 \<and> snd (last (resolved s)) \<noteq> None"

definition phases_promise :: "int \<Rightarrow> string option \<Rightarrow> PromiseAction \<Rightarrow> bool" where
  "phases_promise t0 cell s \<longleftrightarrow>
     awaiting_promise t0 cell s \<or> extending_promise s \<or> aborted_promise t0 cell s \<or>
     ended_promise s"

definition awaiting_obs :: "int \<Rightarrow> ObservableAction \<Rightarrow> bool" where
  "awaiting_obs t0 s \<longleftrightarrow>
     validationTimeoutId s = Some (t0 + BUSY_DELAY) \<and> idleTimeoutId s = None \<and>
     result s = [] \<and> subscribed s \<and> userActionId s = Some (actionId s)"

definition extending_obs :: "ObservableAction \<Rightarrow> bool" where
  "extending_obs s \<longleftrightarrow>
     validationTimeoutId s = None \<and> subscribed s \<and> userActionId s = Some (actionId s) \<and>
     result s \<noteq> [] \<and> list_all (extendedAt (actionId s)) (result s) \<and>
     (case idleTimeoutId s of
        None \<Rightarrow> True
      | Some (d, time) \<Rightarrow> d = time + IDLE_DELAY \<and> fst (last (result s)) = time)"

definition aborted_obs :: "int \<Rightarrow> ObservableAction \<Rightarrow> bool" where
  "aborted_obs t0 s \<longleftrightarrow>
     \<not> subscribed s \<and> validationTimeoutId s = None \<and> idleTimeoutId s = None \<and>
     userActionId s = Some (actionId s) \<and>
     result s = [(fst (last (result s)), Aborted (actionId s) (fst (last (result s))))] \<and>
     t0 + BUSY_DELAY \<le> fst (last (result s))"

definition ended_obs :: "ObservableAction \<Rightarrow> bool" where
  "ended_obs s \<longleftrightarrow>
     \<not> subscribed s \<and> validationTimeoutId s = None \<and> idleTimeoutId s = None \<and>
     userActionId s = None \<and> result s \<noteq> [] \<and> butlast (result s) \<noteq> [] \<and>
     list_all (extendedAt (actionId s)) (butlast (result s)) \<and>
     snd (last (result s)) = Ended (actionId s) (fst (last (butlast (result s)))) \<and>
     fst (last (butlast (result s))) + IDLE_DELAY \<le> fst (last (result s))"

definition phases_obs :: "int \<Rightarrow> ObservableAction \<Rightarrow> bool" where
  "phases_obs t0 s \<longleftrightarrow> awaiting_obs t0 s \<or> extending_obs s \<or> aborted_obs t0 s \<or> ended_obs s"

section \<open>Properties of the request predicates\<close>

text \<open>
  C8: for every \<open>RequestDetails\<close> value, \<open>isRejected\<close> is true exactly when the status
  is \<open>0\<close> and the response type is not \<open>'opaque'\<close>, and \<open>isServerError\<close> is true exactly
  when the status is a number that is at least \<open>500\<close>.
\<close>

theorem isRejected_isServerError_iff:
  "(isRejected request \<longleftrightarrow> status request = Some 0 \<and> responseType request \<noteq> Some ''opaque'') \<and>
   (isServerError request \<longleftrightarrow> (\<exists>n. status request = Some n \<and> n \<ge> 500))"
  by (simp add: isRejected_def isServerError_def split: option.splits)

section \<open>Properties of the element content\<close>

lemma iterateContentCandidates_concat:
  "iterateContentCandidates e = concat (map ownCandidates (selfAndAncestors e))"
  by (induction e) (auto simp: ownCandidates_def getAttribute_def Let_def split: option.splits)

lemma firstContent_find:
  "firstContent cs =
     map_option (strLengthLimit \<circ> trim) (find (\<lambda>c. trim c \<noteq> []) (List.map_filter id cs))"
  by (induction cs rule: firstContent.induct) (simp_all add: List.map_filter_simps Let_def)

lemma length_strLengthLimit: "length (strLengthLimit s) \<le> 406"
  by (simp add: strLengthLimit_def utf16_def)

text \<open>
  C9: \<open>getElementContent\<close> examines the candidates in the order text, value of an
  \<open>INPUT\<close> of type \<open>button\<close> or \<open>submit\<close>, \<open>aria-label\<close>, \<open>alt\<close>, \<open>title\<close>,
  \<open>placeholder\<close>, then the same for each ancestor in turn, and answers with the first
  candidate string whose trimmed value is not empty (trimmed, and cut by
  \<open>strLengthLimit\<close>); it answers \<open>undefined\<close> when there is none.
\<close>

theorem getElementContent_first_candidate:
  "getElementContent e =
     map_option (strLengthLimit \<circ> trim) (find (\<lambda>c. trim c \<noteq> []) (candidateStrings e))"
  by (simp add: getElementContent_def candidateStrings_def firstContent_find
      iterateContentCandidates_concat)

text \<open>
  An \<open>INPUT\<close> of type \<open>submit\<close> with an empty text and a title, under a \<open>SPAN\<close> whose text
  is blank: the value of the input comes before its title.
\<close>

theorem getElementContent_first_candidate_witness:
  "getElementContent
     (Element ''INPUT'' (Some []) [(''type'', utf16 ''submit''), (''title'', utf16 ''T'')]
        (Some (utf16 '' Go ''))
        (Some (Element ''SPAN'' (Some (utf16 '' '')) [] None None))) = Some (utf16 ''Go'') \<and>
   find (\<lambda>c. trim c \<noteq> [])
     (candidateStrings
       (Element ''INPUT'' (Some []) [(''type'', utf16 ''submit''), (''title'', utf16 ''T'')]
          (Some (utf16 '' Go ''))
          (Some (Element ''SPAN'' (Some (utf16 '' '')) [] None None)))) = Some (utf16 '' Go '')"
  using getElementContent_first_candidate
    [of "Element ''INPUT'' (Some []) [(''type'', utf16 ''submit''), (''title'', utf16 ''T'')]
          (Some (utf16 '' Go ''))
          (Some (Element ''SPAN'' (Some (utf16 '' '')) [] None None))"]
  by (simp add: candidateStrings_def ownCandidates_def getAttribute_def List.map_filter_simps
      trim_def utf16_def isWhiteSpace_def strLengthLimit_def)

text \<open>
  C10: a content string that \<open>getElementContent\<close> returns is length-limited: it is the
  trimmed winning candidate when that has at most 400 code units, and otherwise its first
  400 code units followed by \<open>" [...]"\<close>; so it never has more than 406 code units.
\<close>

theorem getElementContent_length_limited:
  assumes "getElementContent e = Some r"
  shows "\<exists>c. find (\<lambda>c. trim c \<noteq> []) (candidateStrings e) = Some c \<and>
             r = (if length (trim c) > 400 then take 400 (trim c) @ utf16 '' [...]''
                  else trim c) \<and>
             length r \<le> 406"
proof -
  from assms obtain c where c: "find (\<lambda>c. trim c \<noteq> []) (candidateStrings e) = Some c"
    and r: "r = strLengthLimit (trim c)"
    by (auto simp: getElementContent_def candidateStrings_def firstContent_find
        iterateContentCandidates_concat)
  from r have "length r \<le> 406"
    by (simp add: length_strLengthLimit)
  with c r show ?thesis
    by (auto simp: strLengthLimit_def)
qed

theorem getElementContent_length_limited_witness:
  "getElementContent (Element ''DIV'' (Some (replicate 401 0x61)) [] None None) =
     Some (replicate 400 0x61 @ utf16 '' [...]'') \<and>
   length (replicate 400 (0x61 :: 16 word) @ utf16 '' [...]'') \<le> 406"
proof -
  have h: "getElementContent (Element ''DIV'' (Some (replicate 401 0x61)) [] None None) =
     Some (replicate 400 0x61 @ utf16 '' [...]'')"
    by (simp add: getElementContent_def trim_def isWhiteSpace_def strLengthLimit_def
        dropWhile_replicate)
  from getElementContent_length_limited [OF h] show ?thesis
    using h by blast
qed

section \<open>Properties of the activity correlator\<close>

text \<open>
  C5 (as amended): in the revision with an observable the correlator notifies a change for
  a performance entry exactly when the entry type is \<open>resource\<close>, and the pending requests
  stay as they are; in the revision with a promise it notifies a change for every
  performance entry, whatever its entry type.
\<close>

theorem performanceEntry_activity:
  "(snd (trackPageChanges_obs pending (PERFORMANCE_ENTRY_COLLECTED entry)) \<noteq> None \<longleftrightarrow>
      entryType entry = ''resource'') \<and>
   fst (trackPageChanges_obs pending (PERFORMANCE_ENTRY_COLLECTED entry)) = pending \<and>
   trackPageChanges_promise ids (PERFORMANCE_ENTRY_COLLECTED entry) = (ids, Some (ids \<noteq> {}))"
  by (simp add: Let_def notifyChange_promise_def)

text \<open>
  In the revision with a promise an entry of type \<open>paint\<close> is notified as a change (not
  busy, with no request pending).
\<close>

theorem performanceEntry_activity_counterexample:
  "trackPageChanges_promise {}
     (PERFORMANCE_ENTRY_COLLECTED \<lparr>entryType = ''paint'', name = ''first-paint'', initiatorType = None\<rparr>) =
   ({}, Some False)"
  by (simp add: notifyChange_promise_def)

lemma absent_obs_step:
  "map_of pending rid = None \<Longrightarrow> \<not> startsRequest rid ev \<Longrightarrow>
   map_of (fst (trackPageChanges_obs pending ev)) rid = None"
  by (cases ev) (auto simp: startsRequest_def Let_def update_conv' delete_conv')

lemma fst_changes_obs_Cons:
  "fst (changes_obs pending (ev # evs)) = fst (changes_obs (fst (trackPageChanges_obs pending ev)) evs)"
  by (simp split: prod.splits)

lemma fst_changes_promise_Cons:
  "fst (changes_promise pending (ev # evs)) =
     fst (changes_promise (fst (trackPageChanges_promise pending ev)) evs)"
  by (simp split: prod.splits)

lemma absent_obs_changes:
  "map_of pending rid = None \<Longrightarrow> \<forall>ev \<in> set evs. \<not> startsRequest rid ev \<Longrightarrow>
   map_of (fst (changes_obs pending evs)) rid = None"
proof (induction evs arbitrary: pending)
  case Nil
  then show ?case by simp
next
  case (Cons ev evs)
  from Cons.prems have "map_of (fst (trackPageChanges_obs pending ev)) rid = None"
    by (simp add: absent_obs_step)
  with Cons.prems Cons.IH [of "fst (trackPageChanges_obs pending ev)"] show ?case
    by (simp only: fst_changes_obs_Cons) simp
qed

lemma absent_promise_step:
  "rid \<notin> pending \<Longrightarrow> \<not> startsRequest rid ev \<Longrightarrow>
   rid \<notin> fst (trackPageChanges_promise pending ev)"
  by (cases ev) (auto simp: startsRequest_def Let_def)

lemma absent_promise_changes:
  "rid \<notin> pending \<Longrightarrow> \<forall>ev \<in> set evs. \<not> startsRequest rid ev \<Longrightarrow>
   rid \<notin> fst (changes_promise pending evs)"
proof (induction evs arbitrary: pending)
  case Nil
  then show ?case by simp
next
  case (Cons ev evs)
  from Cons.prems have "rid \<notin> fst (trackPageChanges_promise pending ev)"
    by (simp add: absent_promise_step)
  with Cons.prems Cons.IH [of "fst (trackPageChanges_promise pending ev)"] show ?case
    by (simp only: fst_changes_promise_Cons) simp
qed

lemma end_absent_obs:
  "kind e = End \<Longrightarrow> map_of pending (requestId e) = None \<Longrightarrow>
   trackPageChanges_obs pending (REQUEST_COLLECTED e) = (pending, None)"
  by (simp add: Let_def map_of_eq_None_iff)

lemma end_present_obs:
  "kind e = End \<Longrightarrow> map_of pending (requestId e) \<noteq> None \<Longrightarrow>
   trackPageChanges_obs pending (REQUEST_COLLECTED e) =
     (AList.delete (requestId e) pending,
      Some (notifyChange_obs (AList.delete (requestId e) pending) ''request_end''
              (Some [''Url: '' @ url (details e)]))) \<and>
   map_of (AList.delete (requestId e) pending) (requestId e) = None"
  by (simp add: Let_def delete_conv')

lemma end_absent_promise:
  "kind e = End \<Longrightarrow> requestId e \<notin> pending \<Longrightarrow>
   trackPageChanges_promise pending (REQUEST_COLLECTED e) = (pending, None)"
  by (simp add: Let_def)

lemma end_present_promise:
  "kind e = End \<Longrightarrow> requestId e \<in> pending \<Longrightarrow>
   trackPageChanges_promise pending (REQUEST_COLLECTED e) =
     (pending - {requestId e}, Some (pending - {requestId e} \<noteq> {}))"
  by (simp add: Let_def notifyChange_promise_def)


text \<open>
  C6: in both revisions, the end of a request whose id is not pending notifies nothing and
  leaves the pending requests unchanged; the end of a request whose id is pending removes
  that id, and nothing else, and notifies one change. After the end of a request, a second
  end for the same id, with no start for that id in between, notifies nothing and removes
  nothing: an id is removed at most once.
\<close>

theorem requestEnd_removal:
  assumes "kind e = End"
  shows
    "(map_of pending (requestId e) = None \<longrightarrow>
        trackPageChanges_obs pending (REQUEST_COLLECTED e) = (pending, None)) \<and>
     (map_of pending (requestId e) \<noteq> None \<longrightarrow>
        (\<exists>c. trackPageChanges_obs pending (REQUEST_COLLECTED e) =
               (AList.delete (requestId e) pending, Some c)) \<and>
        map_of (AList.delete (requestId e) pending) = (map_of pending)(requestId e := None)) \<and>
     (\<forall>evs e'. kind e' = End \<and> requestId e' = requestId e \<and>
         (\<forall>ev \<in> set evs. \<not> startsRequest (requestId e) ev) \<longrightarrow>
         (let p = fst (changes_obs (fst (trackPageChanges_obs pending (REQUEST_COLLECTED e))) evs)
          in trackPageChanges_obs p (REQUEST_COLLECTED e') = (p, None))) \<and>
     (requestId e \<notin> ids \<longrightarrow>
        trackPageChanges_promise ids (REQUEST_COLLECTED e) = (ids, None)) \<and>
     (requestId e \<in> ids \<longrightarrow>
        (\<exists>c. trackPageChanges_promise ids (REQUEST_COLLECTED e) =
               (ids - {requestId e}, Some c))) \<and>
     (\<forall>evs e'. kind e' = End \<and> requestId e' = requestId e \<and>
         (\<forall>ev \<in> set evs. \<not> startsRequest (requestId e) ev) \<longrightarrow>
         (let p = fst (changes_promise (fst (trackPageChanges_promise ids (REQUEST_COLLECTED e))) evs)
          in trackPageChanges_promise p (REQUEST_COLLECTED e') = (p, None)))"
proof (intro conjI allI impI)
  assume "map_of pending (requestId e) = None"
  with assms show "trackPageChanges_obs pending (REQUEST_COLLECTED e) = (pending, None)"
    by (rule end_absent_obs)
next
  assume "map_of pending (requestId e) \<noteq> None"
  with assms show "\<exists>c. trackPageChanges_obs pending (REQUEST_COLLECTED e) =
      (AList.delete (requestId e) pending, Some c)"
    using end_present_obs by blast
next
  show "map_of (AList.delete (requestId e) pending) = (map_of pending)(requestId e := None)"
    by (rule delete_conv')
next
  fix evs and e' :: RequestEvent
  assume h: "kind e' = End \<and> requestId e' = requestId e \<and>
    (\<forall>ev \<in> set evs. \<not> startsRequest (requestId e) ev)"
  from assms have "map_of (fst (trackPageChanges_obs pending (REQUEST_COLLECTED e))) (requestId e) = None"
    by (simp add: Let_def delete_conv')
  with h have "map_of (fst (changes_obs (fst (trackPageChanges_obs pending (REQUEST_COLLECTED e))) evs))
      (requestId e') = None"
    by (simp add: absent_obs_changes)
  with h show "let p = fst (changes_obs (fst (trackPageChanges_obs pending (REQUEST_COLLECTED e))) evs)
      in trackPageChanges_obs p (REQUEST_COLLECTED e') = (p, None)"
    unfolding Let_def by (intro end_absent_obs) simp_all
next
  assume "requestId e \<notin> ids"
  with assms show "trackPageChanges_promise ids (REQUEST_COLLECTED e) = (ids, None)"
    by (rule end_absent_promise)
next
  assume "requestId e \<in> ids"
  with assms show "\<exists>c. trackPageChanges_promise ids (REQUEST_COLLECTED e) =
      (ids - {requestId e}, Some c)"
    using end_present_promise by blast
next
  fix evs and e' :: RequestEvent
  assume h: "kind e' = End \<and> requestId e' = requestId e \<and>
    (\<forall>ev \<in> set evs. \<not> startsRequest (requestId e) ev)"
  from assms have "requestId e \<notin> fst (trackPageChanges_promise ids (REQUEST_COLLECTED e))"
    by (simp add: Let_def)
  with h have "requestId e' \<notin>
      fst (changes_promise (fst (trackPageChanges_promise ids (REQUEST_COLLECTED e))) evs)"
    by (simp add: absent_promise_changes)
  with h show "let p = fst (changes_promise (fst (trackPageChanges_promise ids (REQUEST_COLLECTED e))) evs)
      in trackPageChanges_promise p (REQUEST_COLLECTED e') = (p, None)"
    unfolding Let_def by (intro end_absent_promise) simp_all
qed

theorem requestEnd_removal_witness:
  "kind exampleEnd = End \<and>
   trackPageChanges_obs [] (REQUEST_COLLECTED exampleEnd) = ([], None) \<and>
   trackPageChanges_obs [(''r1'', exampleDetails)] (REQUEST_COLLECTED exampleEnd) =
     ([], Some \<lparr>isBusy = False, changeType = ''request_end'',
                changeDetails = Some [''Url: https://x.test/a'']\<rparr>) \<and>
   trackPageChanges_obs (fst (changes_obs [] [DOM_MUTATED])) (REQUEST_COLLECTED exampleEnd) =
     ([], None) \<and>
   trackPageChanges_promise {} (REQUEST_COLLECTED exampleEnd) = ({}, None) \<and>
   trackPageChanges_promise {''r1'', ''r2''} (REQUEST_COLLECTED exampleEnd) = ({''r2''}, Some True) \<and>
   trackPageChanges_promise (fst (changes_promise {''r2''} [DOM_MUTATED])) (REQUEST_COLLECTED exampleEnd) =
     ({''r2''}, None)"
proof -
  have k: "kind exampleEnd = End"
    by (simp add: exampleEnd_def)
  show ?thesis
    using k requestEnd_removal [OF k, of "[(''r1'', exampleDetails)]" "{''r1'', ''r2''}"]
    by (simp add: exampleEnd_def exampleDetails_def notifyChange_obs_def notifyChange_promise_def
        Let_def startsRequest_def)
qed

section \<open>Properties of the wrapped fetch\<close>

text \<open>
  C7 (as amended): for a call whose URL parses, when the promise of the original \<open>fetch\<close>
  rejects with an \<open>Error\<close> (or another object that has a \<open>stack\<close>), the wrapper publishes the
  start event and exactly one end event, with status \<open>0\<close> and the text of the stack trace as
  the response; when it rejects with a primitive, or with an object that has neither a
  \<open>stack\<close> nor a \<open>status\<close>, the wrapper publishes the start event and no end event. When the
  promise fulfils and reading the body of the response throws, the end event is still
  published, with the placeholder \<open>Unable to retrieve response: ...\<close> as the response. In
  every case the wrapper returns the promise that the original \<open>fetch\<close> returned.
\<close>

theorem trackFetch_failure:
  assumes "normalizeUrl (fetchUrl input) = Some u"
  shows
    "(originalFetch input init = Rejected (ErrorObject e) \<longrightarrow>
        (\<exists>s ev. trackFetch normalizeUrl stackString rid tid startT now originalFetch input init =
                  Inr ([s, ev], Rejected (ErrorObject e)) \<and>
                kind s = Start \<and> kind ev = End \<and> requestId ev = rid \<and>
                status (details ev) = Some 0 \<and>
                response (details ev) = Some (stackString e))) \<and>
     (originalFetch input init = Rejected Primitive \<or>
      originalFetch input init = Rejected OtherObject \<longrightarrow>
        (\<exists>s. trackFetch normalizeUrl stackString rid tid startT now originalFetch input init =
                  Inr ([s], originalFetch input init) \<and>
             kind s = Start)) \<and>
     (originalFetch input init = Fulfilled (Response st ty (TextThrows msg)) \<longrightarrow>
        (\<exists>s ev. trackFetch normalizeUrl stackString rid tid startT now originalFetch input init =
                  Inr ([s, ev], Fulfilled (Response st ty (TextThrows msg))) \<and>
                kind s = Start \<and> kind ev = End \<and> requestId ev = rid \<and>
                status (details ev) = Some st \<and>
                response (details ev) = Some (''Unable to retrieve response: '' @ msg))) \<and>
     (\<exists>evs. trackFetch normalizeUrl stackString rid tid startT now originalFetch input init =
              Inr (evs, originalFetch input init))"
proof (intro conjI impI)
  assume "originalFetch input init = Rejected (ErrorObject e)"
  with assms show "\<exists>s ev. trackFetch normalizeUrl stackString rid tid startT now originalFetch input init =
                  Inr ([s, ev], Rejected (ErrorObject e)) \<and>
                kind s = Start \<and> kind ev = End \<and> requestId ev = rid \<and>
                status (details ev) = Some 0 \<and>
                response (details ev) = Some (stackString e)"
    by (simp add: trackFetch_def reportFetch_def published_def Let_def)
next
  assume "originalFetch input init = Rejected Primitive \<or>
      originalFetch input init = Rejected OtherObject"
  with assms show "\<exists>s. trackFetch normalizeUrl stackString rid tid startT now originalFetch input init =
                  Inr ([s], originalFetch input init) \<and> kind s = Start"
    by (auto simp: trackFetch_def reportFetch_def published_def Let_def)
next
  assume "originalFetch input init = Fulfilled (Response st ty (TextThrows msg))"
  with assms show "\<exists>s ev. trackFetch normalizeUrl stackString rid tid startT now originalFetch input init =
                  Inr ([s, ev], Fulfilled (Response st ty (TextThrows msg))) \<and>
                kind s = Start \<and> kind ev = End \<and> requestId ev = rid \<and>
                status (details ev) = Some st \<and>
                response (details ev) = Some (''Unable to retrieve response: '' @ msg)"
    by (simp add: trackFetch_def reportFetch_def published_def Let_def)
next
  from assms show "\<exists>evs. trackFetch normalizeUrl stackString rid tid startT now originalFetch input init =
              Inr (evs, originalFetch input init)"
    by (simp add: trackFetch_def Let_def)
qed

text \<open>
  A \<open>fetch\<close> of \<open>/a/b\<close> that rejects with the string \<open>boom\<close> (the reason of an abort, say):
  the start event is published, and no end event.
\<close>

theorem trackFetch_failure_counterexample:
  "trackFetch exampleNormalizeUrl exampleStackString ''r1'' None 5 30
     (rejectingFetch Primitive) (UrlString ''/a/b'') None =
   Inr ([\<lparr>kind = Start,
          details = \<lparr>type = FETCH, httpMethod = ''GET'', url = ''https://x.test/a/b'',
            status = None, response = None, responseType = None, startTime = 5, duration = 0,
            traceId = None\<rparr>,
          requestId = ''r1''\<rparr>],
        Rejected Primitive)"
  by (simp add: trackFetch_def reportFetch_def published_def fetchUrl_def fetchMethod_def Let_def
      exampleNormalizeUrl_def rejectingFetch_def)

text \<open>
  The same \<open>fetch\<close> rejecting with a \<open>TypeError\<close>: one end event, with status \<open>0\<close>. And
  fulfilling with a response whose body cannot be read: one end event, with the placeholder.
\<close>

theorem trackFetch_failure_witness:
  "exampleNormalizeUrl (fetchUrl (UrlString ''/a/b'')) = Some ''https://x.test/a/b'' \<and>
   rejectingFetch (ErrorObject ''TypeError'') (UrlString ''/a/b'') None =
     Rejected (ErrorObject ''TypeError'') \<and>
   trackFetch exampleNormalizeUrl exampleStackString ''r1'' None 5 30
     (rejectingFetch (ErrorObject ''TypeError'')) (UrlString ''/a/b'') None =
   Inr ([\<lparr>kind = Start,
          details = \<lparr>type = FETCH, httpMethod = ''GET'', url = ''https://x.test/a/b'',
            status = None, response = None, responseType = None, startTime = 5, duration = 0,
            traceId = None\<rparr>,
          requestId = ''r1''\<rparr>,
         \<lparr>kind = End,
          details = \<lparr>type = FETCH, httpMethod = ''GET'', url = ''https://x.test/a/b'',
            status = Some 0, response = Some ''fetch failed: TypeError'', responseType = None,
            startTime = 5, duration = 25, traceId = None\<rparr>,
          requestId = ''r1''\<rparr>],
        Rejected (ErrorObject ''TypeError'')) \<and>
   trackFetch exampleNormalizeUrl exampleStackString ''r2'' None 5 30
     (fulfillingFetch (Response 200 ''basic'' (TextThrows ''TypeError: body used'')))
     (UrlString ''/a/b'') None =
   Inr ([\<lparr>kind = Start,
          details = \<lparr>type = FETCH, httpMethod = ''GET'', url = ''https://x.test/a/b'',
            status = None, response = None, responseType = None, startTime = 5, duration = 0,
            traceId = None\<rparr>,
          requestId = ''r2''\<rparr>,
         \<lparr>kind = End,
          details = \<lparr>type = FETCH, httpMethod = ''GET'', url = ''https://x.test/a/b'',
            status = Some 200,
            response = Some ''Unable to retrieve response: TypeError: body used'',
            responseType = Some ''basic'', startTime = 5, duration = 25, traceId = None\<rparr>,
          requestId = ''r2''\<rparr>],
        Fulfilled (Response 200 ''basic'' (TextThrows ''TypeError: body used'')))"
proof -
  have h: "exampleNormalizeUrl (fetchUrl (UrlString ''/a/b'')) = Some ''https://x.test/a/b''"
    by (simp add: exampleNormalizeUrl_def fetchUrl_def)
  from trackFetch_failure [where normalizeUrl = exampleNormalizeUrl
      and input = "UrlString ''/a/b''" and u = "''https://x.test/a/b''"
      and originalFetch = "rejectingFetch (ErrorObject ''TypeError'')" and init = None
      and e = "''TypeError''" and stackString = exampleStackString and rid = "''r1''"
      and tid = None and startT = 5 and now = 30, OF h]
    trackFetch_failure [where normalizeUrl = exampleNormalizeUrl
      and input = "UrlString ''/a/b''" and u = "''https://x.test/a/b''"
      and originalFetch = "fulfillingFetch (Response 200 ''basic'' (TextThrows ''TypeError: body used''))"
      and init = None and st = 200 and ty = "''basic''" and msg = "''TypeError: body used''"
      and stackString = exampleStackString and rid = "''r2''"
      and tid = None and startT = 5 and now = 30, OF h]
  show ?thesis using h
    by (simp add: trackFetch_def reportFetch_def published_def fetchMethod_def Let_def
        exampleStackString_def rejectingFetch_def fulfillingFetch_def)
qed

section \<open>Properties of the interaction detector\<close>

subsection \<open>The revision with an observable\<close>

lemma awaiting_new_obs: "awaiting_obs t (newUserAction_obs uuid t)"
  by (simp add: awaiting_obs_def newUserAction_obs_def)

lemma onChange_awaiting_obs: "awaiting_obs t0 s \<Longrightarrow> extending_obs (onChange_obs s c)"
  by (simp add: awaiting_obs_def extending_obs_def onChange_obs_def Let_def)

lemma onChange_extending_obs: "extending_obs s \<Longrightarrow> extending_obs (onChange_obs s c)"
  by (simp add: extending_obs_def onChange_obs_def Let_def)

lemma pending_awaiting_obs [simp]:
  "awaiting_obs t0 (s\<lparr>pendingRequests := p\<rparr>) = awaiting_obs t0 s"
  by (simp add: awaiting_obs_def)

lemma pending_extending_obs [simp]:
  "extending_obs (s\<lparr>pendingRequests := p\<rparr>) = extending_obs s"
  by (simp add: extending_obs_def cong: option.case_cong)

lemma clock_awaiting_obs [simp]: "awaiting_obs t0 (s\<lparr>clock := c\<rparr>) = awaiting_obs t0 s"
  by (simp add: awaiting_obs_def)

lemma clock_extending_obs [simp]: "extending_obs (s\<lparr>clock := c\<rparr>) = extending_obs s"
  by (simp add: extending_obs_def cong: option.case_cong)

lemma clock_aborted_obs [simp]: "aborted_obs t0 (s\<lparr>clock := c\<rparr>) = aborted_obs t0 s"
  by (simp add: aborted_obs_def)

lemma clock_ended_obs [simp]: "ended_obs (s\<lparr>clock := c\<rparr>) = ended_obs s"
  by (simp add: ended_obs_def)

lemma runTimers_awaiting_obs:
  "awaiting_obs t0 s \<Longrightarrow>
   (if t0 + BUSY_DELAY \<le> clock s
    then aborted_obs t0 (runTimers_obs s) \<and>
         result (runTimers_obs s) = [(clock s, Aborted (actionId s) (clock s))]
    else runTimers_obs s = s)"
  by (simp add: awaiting_obs_def aborted_obs_def runTimers_obs_def validationTimeout_obs_def)

lemma runTimers_extending_obs:
  assumes "extending_obs s"
  shows "extending_obs (runTimers_obs s) \<or> ended_obs (runTimers_obs s)"
proof (cases "idleTimeoutId s")
  case None
  with assms have "runTimers_obs s = s"
    by (simp add: runTimers_obs_def extending_obs_def)
  with assms show ?thesis by simp
next
  case (Some a)
  obtain d time where a: "a = (d, time)" by (cases a)
  show ?thesis
  proof (cases "d \<le> clock s")
    case True
    with assms Some a have "runTimers_obs s = idleTimeout_obs time s"
      by (simp add: runTimers_obs_def extending_obs_def)
    moreover from assms Some a True have "ended_obs (idleTimeout_obs time s)"
      by (simp add: extending_obs_def ended_obs_def idleTimeout_obs_def)
    ultimately show ?thesis by simp
  next
    case False
    with assms Some a have "runTimers_obs s = s"
      by (simp add: runTimers_obs_def extending_obs_def)
    with assms show ?thesis by simp
  qed
qed


lemma runTimers_none_obs:
  "validationTimeoutId s = None \<Longrightarrow> idleTimeoutId s = None \<Longrightarrow> runTimers_obs s = s"
  by (simp add: runTimers_obs_def)

lemma step_unsubscribed_obs:
  "\<not> subscribed s \<Longrightarrow> validationTimeoutId s = None \<Longrightarrow> idleTimeoutId s = None \<Longrightarrow>
   step_obs s st = (case st of Elapse d \<Rightarrow> s\<lparr>clock := clock s + int d\<rparr> | _ \<Rightarrow> s)"
  by (cases st) (simp_all add: runTimers_none_obs)

lemma step_aborted_obs:
  assumes "aborted_obs t0 s"
  shows "aborted_obs t0 (step_obs s st)"
proof -
  from assms have "step_obs s st = (case st of Elapse d \<Rightarrow> s\<lparr>clock := clock s + int d\<rparr> | _ \<Rightarrow> s)"
    by (intro step_unsubscribed_obs) (simp_all add: aborted_obs_def)
  with assms show ?thesis by (cases st) simp_all
qed

lemma step_ended_obs:
  assumes "ended_obs s"
  shows "ended_obs (step_obs s st)"
proof -
  from assms have "step_obs s st = (case st of Elapse d \<Rightarrow> s\<lparr>clock := clock s + int d\<rparr> | _ \<Rightarrow> s)"
    by (intro step_unsubscribed_obs) (simp_all add: ended_obs_def)
  with assms show ?thesis by (cases st) simp_all
qed

lemma notify_awaiting_obs:
  assumes "awaiting_obs t0 s"
  shows "awaiting_obs t0 (step_obs s (Notify ev)) \<or> extending_obs (step_obs s (Notify ev))"
proof (cases "trackPageChanges_obs (pendingRequests s) ev")
  case (Pair p c)
  from assms have sub: "subscribed s" by (simp add: awaiting_obs_def)
  show ?thesis
  proof (cases c)
    case None
    with Pair sub assms show ?thesis by simp
  next
    case (Some x)
    from assms have "awaiting_obs t0 (s\<lparr>pendingRequests := p\<rparr>)" by simp
    then have "extending_obs (onChange_obs (s\<lparr>pendingRequests := p\<rparr>) x)"
      by (rule onChange_awaiting_obs)
    with Pair Some sub show ?thesis by simp
  qed
qed

lemma notify_extending_obs:
  assumes "extending_obs s"
  shows "extending_obs (step_obs s (Notify ev))"
proof (cases "trackPageChanges_obs (pendingRequests s) ev")
  case (Pair p c)
  from assms have sub: "subscribed s" by (simp add: extending_obs_def)
  show ?thesis
  proof (cases c)
    case None
    with Pair sub assms show ?thesis by simp
  next
    case (Some x)
    from assms have "extending_obs (s\<lparr>pendingRequests := p\<rparr>)" by simp
    then have "extending_obs (onChange_obs (s\<lparr>pendingRequests := p\<rparr>) x)"
      by (rule onChange_extending_obs)
    with Pair Some sub show ?thesis by simp
  qed
qed

lemma step_awaiting_obs:
  assumes "awaiting_obs t0 s"
  shows "awaiting_obs t0 (step_obs s st) \<or> extending_obs (step_obs s st) \<or>
    aborted_obs t0 (step_obs s st)"
proof (cases st)
  case (Elapse d)
  with assms show ?thesis by simp
next
  case RunTimers
  with runTimers_awaiting_obs [OF assms] assms show ?thesis
    by (cases "t0 + BUSY_DELAY \<le> clock s") simp_all
next
  case (Notify ev)
  with notify_awaiting_obs [OF assms, of ev] show ?thesis by blast
qed

lemma step_extending_obs:
  assumes "extending_obs s"
  shows "extending_obs (step_obs s st) \<or> ended_obs (step_obs s st)"
proof (cases st)
  case (Elapse d)
  with assms show ?thesis by simp
next
  case RunTimers
  with runTimers_extending_obs [OF assms] show ?thesis by simp
next
  case (Notify ev)
  with notify_extending_obs [OF assms, of ev] show ?thesis by simp
qed

lemma step_phases_obs: "phases_obs t0 s \<Longrightarrow> phases_obs t0 (step_obs s st)"
  unfolding phases_obs_def
  using step_awaiting_obs step_extending_obs step_aborted_obs step_ended_obs by blast

lemma run_phases_obs: "phases_obs t0 s \<Longrightarrow> phases_obs t0 (run_obs s steps)"
  unfolding run_obs_def
  by (induction steps arbitrary: s) (simp_all add: step_phases_obs)

lemma phases_new_obs: "phases_obs t (run_obs (newUserAction_obs uuid t) steps)"
  by (rule run_phases_obs) (simp add: phases_obs_def awaiting_new_obs)

lemma actionId_step_obs [simp]: "actionId (step_obs s st) = actionId s"
proof (cases st)
  case (Elapse d)
  then show ?thesis by simp
next
  case RunTimers
  then show ?thesis
    by (simp add: runTimers_obs_def validationTimeout_obs_def idleTimeout_obs_def Let_def
        split: option.splits prod.splits)
next
  case (Notify ev)
  then show ?thesis
    by (simp add: onChange_obs_def Let_def split: option.splits prod.splits)
qed

lemma actionId_run_obs [simp]: "actionId (run_obs s steps) = actionId s"
  unfolding run_obs_def by (induction steps arbitrary: s) simp_all

lemma actionId_new_obs [simp]: "actionId (newUserAction_obs uuid t) = uuid"
  by (simp add: newUserAction_obs_def)


lemma isExtended_not_terminal: "isExtended e \<Longrightarrow> \<not> isTerminal e"
  by (cases e) simp_all

lemma extendedAt_isExtended: "extendedAt uid x \<Longrightarrow> isExtended (snd x) \<and> eventId (snd x) = uid"
  by (cases "(uid, x)" rule: extendedAt.cases) simp_all

lemma terminal_last:
  assumes "list_all isExtended (butlast evs)"
  shows "length (filter isTerminal evs) \<le> 1 \<and>
         (\<forall>pre e post. evs = pre @ e # post \<and> isTerminal e \<longrightarrow> post = [])"
proof (intro conjI allI impI)
  from assms have none: "filter isTerminal (butlast evs) = []"
    by (auto simp: list_all_iff filter_empty_conv dest: isExtended_not_terminal)
  show "length (filter isTerminal evs) \<le> 1"
  proof (cases "evs = []")
    case True
    then show ?thesis by simp
  next
    case False
    then have "evs = butlast evs @ [last evs]" by simp
    then have "filter isTerminal evs = filter isTerminal (butlast evs) @ filter isTerminal [last evs]"
      by (metis filter_append)
    with none show ?thesis by simp
  qed
next
  fix pre e post
  assume h: "evs = pre @ e # post \<and> isTerminal e"
  show "post = []"
  proof (rule ccontr)
    assume "post \<noteq> []"
    with h have "butlast evs = pre @ e # butlast post"
      by (simp add: butlast_append)
    with assms have "isExtended e" by simp
    with h show False by (simp add: isExtended_not_terminal)
  qed
qed

lemma list_all_butlast: "list_all P xs \<Longrightarrow> list_all P (butlast xs)"
  by (auto simp: list_all_iff dest: in_set_butlastD)

lemma phases_butlast_obs:
  assumes "phases_obs t0 s"
  shows "list_all isExtended (butlast (map snd (result s))) \<and>
         list_all (\<lambda>e. eventId e = actionId s) (map snd (result s))"
proof -
  from assms consider "awaiting_obs t0 s" | "extending_obs s" | "aborted_obs t0 s" | "ended_obs s"
    unfolding phases_obs_def by blast
  then show ?thesis
  proof cases
    case 1
    then show ?thesis by (simp add: awaiting_obs_def)
  next
    case 2
    then have "list_all (extendedAt (actionId s)) (result s)"
      by (simp add: extending_obs_def)
    then have "list_all isExtended (map snd (result s)) \<and>
        list_all (\<lambda>e. eventId e = actionId s) (map snd (result s))"
      by (auto simp: list_all_iff dest: extendedAt_isExtended)
    then show ?thesis by (simp add: list_all_butlast)
  next
    case 3
    then have "result s = [(fst (last (result s)), Aborted (actionId s) (fst (last (result s))))]"
      by (simp add: aborted_obs_def)
    then obtain at where "result s = [(at, Aborted (actionId s) at)]" ..
    then show ?thesis by simp
  next
    case 4
    then have ne: "result s \<noteq> []" by (simp add: ended_obs_def)
    then obtain xs x where r: "result s = xs @ [x]"
      by (cases "result s" rule: rev_cases) simp_all
    from 4 have b: "list_all (extendedAt (actionId s)) xs"
      and l: "snd x = Ended (actionId s) (fst (last xs))"
      by (simp_all add: ended_obs_def r)
    from b have "list_all isExtended (map snd xs) \<and>
        list_all (\<lambda>e. eventId e = actionId s) (map snd xs)"
      by (auto simp: list_all_iff dest: extendedAt_isExtended)
    with l show ?thesis by (simp add: r)
  qed
qed


lemma clock_step_obs:
  "clock (step_obs s st) = clock s + (case st of Elapse d \<Rightarrow> int d | _ \<Rightarrow> 0)"
proof (cases st)
  case (Elapse d)
  then show ?thesis by simp
next
  case RunTimers
  then show ?thesis
    by (simp add: runTimers_obs_def validationTimeout_obs_def idleTimeout_obs_def Let_def
        split: option.splits prod.splits)
next
  case (Notify ev)
  then show ?thesis
    by (simp add: onChange_obs_def Let_def split: option.splits prod.splits)
qed

lemma run_obs_append: "run_obs s (xs @ ys) = run_obs (run_obs s xs) ys"
  by (simp add: run_obs_def)

lemma run_obs_Cons: "run_obs s (st # steps) = run_obs (step_obs s st) steps"
  by (simp add: run_obs_def)

lemma clock_run_obs: "clock (run_obs s steps) = clock s + int (elapsed steps)"
proof (induction steps arbitrary: s)
  case Nil
  then show ?case by (simp add: run_obs_def)
next
  case (Cons st steps)
  have "clock (run_obs s (st # steps)) = clock (step_obs s st) + int (elapsed steps)"
    using Cons [of "step_obs s st"] by (simp only: run_obs_Cons)
  also have "clock (step_obs s st) = clock s + (case st of Elapse d \<Rightarrow> int d | _ \<Rightarrow> 0)"
    by (rule clock_step_obs)
  finally show ?case by (cases st) simp_all
qed

lemma run_aborted_obs: "aborted_obs t0 s \<Longrightarrow> aborted_obs t0 (run_obs s steps)"
  unfolding run_obs_def
  by (induction steps arbitrary: s) (simp_all add: step_aborted_obs)

lemma quiet_pending_obs:
  "snd (trackPageChanges_obs [] ev) = None \<Longrightarrow> trackPageChanges_obs [] ev = ([], None)"
  by (cases ev) (simp_all add: Let_def split: if_splits)

lemma quiet_step_obs:
  assumes "awaiting_obs t0 s" and "pendingRequests s = []" and "quiet_obs st"
  shows "(awaiting_obs t0 (step_obs s st) \<and> pendingRequests (step_obs s st) = []) \<or>
         aborted_obs t0 (step_obs s st)"
proof (cases st)
  case (Elapse d)
  with assms show ?thesis by simp
next
  case RunTimers
  with runTimers_awaiting_obs [OF assms(1)] assms show ?thesis
    by (cases "t0 + BUSY_DELAY \<le> clock s") simp_all
next
  case (Notify ev)
  with assms(3) have "trackPageChanges_obs [] ev = ([], None)"
    by (simp add: quiet_obs_def quiet_pending_obs)
  with assms Notify show ?thesis
    by (simp add: awaiting_obs_def)
qed

lemma quiet_run_obs:
  assumes "awaiting_obs t0 s" and "pendingRequests s = []" and "list_all quiet_obs pre"
  shows "(awaiting_obs t0 (run_obs s pre) \<and> pendingRequests (run_obs s pre) = []) \<or>
         aborted_obs t0 (run_obs s pre)"
  using assms
proof (induction pre arbitrary: s)
  case Nil
  then show ?case by (simp add: run_obs_def)
next
  case (Cons st pre)
  from Cons.prems have q: "quiet_obs st" and qs: "list_all quiet_obs pre" by simp_all
  from quiet_step_obs [OF Cons.prems(1,2) q]
  show ?case
  proof
    assume "awaiting_obs t0 (step_obs s st) \<and> pendingRequests (step_obs s st) = []"
    with Cons.IH [of "step_obs s st"] qs show ?thesis
      by (simp add: run_obs_Cons)
  next
    assume "aborted_obs t0 (step_obs s st)"
    then show ?thesis
      by (simp add: run_obs_Cons run_aborted_obs)
  qed
qed

lemma aborted_after_quiet_obs:
  assumes "list_all quiet_obs pre" and "BUSY_DELAY \<le> int (elapsed pre)"
  shows "aborted_obs t (run_obs (newUserAction_obs uuid t) (pre @ RunTimers # rest))"
proof -
  let ?s = "run_obs (newUserAction_obs uuid t) pre"
  have c: "clock ?s = t + int (elapsed pre)"
    by (simp add: clock_run_obs newUserAction_obs_def)
  have "(awaiting_obs t ?s \<and> pendingRequests ?s = []) \<or> aborted_obs t ?s"
    by (rule quiet_run_obs [OF awaiting_new_obs _ assms(1)]) (simp add: newUserAction_obs_def)
  then have "aborted_obs t (step_obs ?s RunTimers)"
  proof
    assume a: "awaiting_obs t ?s \<and> pendingRequests ?s = []"
    with runTimers_awaiting_obs [of t ?s] c assms(2) show ?thesis by simp
  next
    assume "aborted_obs t ?s"
    then show ?thesis by (rule step_aborted_obs)
  qed
  then show ?thesis
    by (simp add: run_obs_append run_obs_Cons run_aborted_obs)
qed




lemma ended_of_last_obs:
  assumes "phases_obs t0 s" and "result s = xs @ [(at, Ended i time)]"
  shows "xs \<noteq> [] \<and> list_all (extendedAt (actionId s)) xs \<and> i = actionId s \<and>
         time = fst (last xs) \<and> time + IDLE_DELAY \<le> at \<and> userActionId s = None"
proof -
  from assms(1) consider "awaiting_obs t0 s" | "extending_obs s" | "aborted_obs t0 s" | "ended_obs s"
    unfolding phases_obs_def by blast
  then show ?thesis
  proof cases
    case 1
    with assms(2) show ?thesis by (simp add: awaiting_obs_def)
  next
    case 2
    with assms(2) show ?thesis by (simp add: extending_obs_def)
  next
    case 3
    with assms(2) show ?thesis by (simp add: aborted_obs_def)
  next
    case 4
    with assms(2) show ?thesis by (simp add: ended_obs_def)
  qed
qed

lemma name_click_obs:
  "ua_name (userActionCollected_obs t c e ev) = ''click'' \<Longrightarrow> \<exists>i time. ev = Ended i time"
  by (cases ev) simp_all

lemma extendedAt_report_obs:
  assumes "extendedAt uid x"
  shows "ua_name (userActionCollected_obs t c e (snd x)) = ''click extended'' \<and>
         ua_startTime (userActionCollected_obs t c e (snd x)) = fst x"
  using assms by (cases "(uid, x)" rule: extendedAt.cases) simp_all

text \<open>
  C2 (as amended): when the listener publishes the completed user action (\<open>click\<close>), the
  action published just before it is the \<open>click extended\<close> of the last activity signal,
  whose start time is the clock reading of that signal; the duration of the completed
  action is the time of that last activity signal minus the time of the click, and the
  completed action is published \<open>IDLE_DELAY\<close> or more after that signal.
\<close>

theorem ended_duration:
  assumes "startUserActionCollection_obs getElementAsString uuid target t steps = rs @ [(at, ua)]"
    and "ua_name ua = ''click''"
  shows "rs \<noteq> [] \<and> ua_name (snd (last rs)) = ''click extended'' \<and>
         ua_startTime (snd (last rs)) = fst (last rs) \<and>
         ua_duration ua = Some (fst (last rs) - t) \<and>
         fst (last rs) + IDLE_DELAY \<le> at"
proof -
  let ?s = "run_obs (newUserAction_obs uuid t) steps"
  obtain element content where cc: "clickContext getElementAsString target = (element, content)"
    by (cases "clickContext getElementAsString target")
  let ?f = "\<lambda>(at, ev). (at, userActionCollected_obs t content element ev)"
  from assms(1) cc have m: "map ?f (result ?s) = rs @ [(at, ua)]"
    by (simp add: startUserActionCollection_obs_def)
  then have "result ?s \<noteq> []" by auto
  then obtain xs x where r: "result ?s = xs @ [x]"
    by (cases "result ?s" rule: rev_cases) simp_all
  obtain at' ev where x: "x = (at', ev)" by (cases x)
  from m r x have rs: "rs = map ?f xs" and at: "at' = at"
    and ua: "ua = userActionCollected_obs t content element ev"
    by simp_all
  from ua assms(2) obtain i time where ev: "ev = Ended i time"
    using name_click_obs by blast
  from ended_of_last_obs [OF phases_new_obs, of uuid t steps xs at i time] r x at ev
  have ne: "xs \<noteq> []" and ext: "list_all (extendedAt uuid) xs" and time: "time = fst (last xs)"
    and le: "time + IDLE_DELAY \<le> at"
    by simp_all
  from ne ext have "extendedAt uuid (last xs)"
    by (simp add: list_all_iff)
  from extendedAt_report_obs [OF this, of t content element] ne rs
  have "ua_name (snd (last rs)) = ''click extended''"
    and "ua_startTime (snd (last rs)) = fst (last rs)" and "fst (last rs) = fst (last xs)"
    by (simp_all add: last_map case_prod_beta)
  with ne rs ua ev time le show ?thesis by simp
qed


subsection \<open>The revision with a promise\<close>

lemma awaiting_new_promise: "awaiting_promise t cell (newUserAction_promise uuid cell t)"
  by (simp add: awaiting_promise_def newUserAction_promise_def)

lemma onChange_awaiting_promise:
  "awaiting_promise t0 cell s \<Longrightarrow> extending_promise (onChange_promise s busy)"
  by (simp add: awaiting_promise_def extending_promise_def onChange_promise_def Let_def)

lemma onChange_extending_promise:
  "extending_promise s \<Longrightarrow> extending_promise (onChange_promise s busy)"
  by (simp add: extending_promise_def onChange_promise_def Let_def)

lemma pending_awaiting_promise [simp]:
  "awaiting_promise t0 cell (s\<lparr>pendingIds := p\<rparr>) = awaiting_promise t0 cell s"
  by (simp add: awaiting_promise_def)

lemma pending_extending_promise [simp]:
  "extending_promise (s\<lparr>pendingIds := p\<rparr>) = extending_promise s"
  by (simp add: extending_promise_def)

lemma clock_awaiting_promise [simp]:
  "awaiting_promise t0 cell (s\<lparr>clock := c\<rparr>) = awaiting_promise t0 cell s"
  by (simp add: awaiting_promise_def)

lemma clock_extending_promise [simp]:
  "extending_promise (s\<lparr>clock := c\<rparr>) = extending_promise s"
  by (simp add: extending_promise_def)

lemma clock_aborted_promise [simp]:
  "aborted_promise t0 cell (s\<lparr>clock := c\<rparr>) = aborted_promise t0 cell s"
  by (simp add: aborted_promise_def)

lemma clock_ended_promise [simp]: "ended_promise (s\<lparr>clock := c\<rparr>) = ended_promise s"
  by (simp add: ended_promise_def)

lemma runTimers_awaiting_promise:
  "awaiting_promise t0 cell s \<Longrightarrow>
   (if t0 + BUSY_DELAY \<le> clock s then aborted_promise t0 cell (runTimers_promise s)
    else runTimers_promise s = s)"
  by (simp add: awaiting_promise_def aborted_promise_def runTimers_promise_def
      validationTimeout_promise_def)

lemma runTimers_extending_promise:
  assumes "extending_promise s"
  shows "extending_promise (runTimers_promise s) \<or> ended_promise (runTimers_promise s)"
proof (cases "idleTimeoutId s")
  case None
  with assms have "runTimers_promise s = s"
    by (simp add: runTimers_promise_def extending_promise_def)
  with assms show ?thesis by simp
next
  case (Some a)
  obtain d e where a: "a = (d, e)" by (cases a)
  show ?thesis
  proof (cases "d \<le> clock s")
    case True
    with assms Some a have "runTimers_promise s = idleTimeout_promise e s"
      by (simp add: runTimers_promise_def extending_promise_def)
    moreover from assms have "ended_promise (idleTimeout_promise e s)"
      by (simp add: extending_promise_def ended_promise_def idleTimeout_promise_def)
    ultimately show ?thesis by simp
  next
    case False
    with assms Some a have "runTimers_promise s = s"
      by (simp add: runTimers_promise_def extending_promise_def)
    with assms show ?thesis by simp
  qed
qed

lemma runTimers_none_promise:
  "validationTimeoutId s = None \<Longrightarrow> idleTimeoutId s = None \<Longrightarrow> runTimers_promise s = s"
  by (simp add: runTimers_promise_def)

lemma step_unsubscribed_promise:
  "\<not> subscribed s \<Longrightarrow> validationTimeoutId s = None \<Longrightarrow> idleTimeoutId s = None \<Longrightarrow>
   step_promise s st = (case st of Elapse d \<Rightarrow> s\<lparr>clock := clock s + int d\<rparr> | _ \<Rightarrow> s)"
  by (cases st) (simp_all add: runTimers_none_promise)

lemma step_aborted_promise:
  assumes "aborted_promise t0 cell s"
  shows "aborted_promise t0 cell (step_promise s st)"
proof -
  from assms have
    "step_promise s st = (case st of Elapse d \<Rightarrow> s\<lparr>clock := clock s + int d\<rparr> | _ \<Rightarrow> s)"
    by (intro step_unsubscribed_promise) (simp_all add: aborted_promise_def)
  with assms show ?thesis by (cases st) simp_all
qed

lemma step_ended_promise:
  assumes "ended_promise s"
  shows "ended_promise (step_promise s st)"
proof -
  from assms have
    "step_promise s st = (case st of Elapse d \<Rightarrow> s\<lparr>clock := clock s + int d\<rparr> | _ \<Rightarrow> s)"
    by (intro step_unsubscribed_promise) (simp_all add: ended_promise_def)
  with assms show ?thesis by (cases st) simp_all
qed

lemma notify_awaiting_promise:
  assumes "awaiting_promise t0 cell s"
  shows "awaiting_promise t0 cell (step_promise s (Notify ev)) \<or>
    extending_promise (step_promise s (Notify ev))"
proof (cases "trackPageChanges_promise (pendingIds s) ev")
  case (Pair p c)
  from assms have sub: "subscribed s" by (simp add: awaiting_promise_def)
  show ?thesis
  proof (cases c)
    case None
    with Pair sub assms show ?thesis by simp
  next
    case (Some x)
    from assms have "awaiting_promise t0 cell (s\<lparr>pendingIds := p\<rparr>)" by simp
    then have "extending_promise (onChange_promise (s\<lparr>pendingIds := p\<rparr>) x)"
      by (rule onChange_awaiting_promise)
    with Pair Some sub show ?thesis by simp
  qed
qed

lemma notify_extending_promise:
  assumes "extending_promise s"
  shows "extending_promise (step_promise s (Notify ev))"
proof (cases "trackPageChanges_promise (pendingIds s) ev")
  case (Pair p c)
  from assms have sub: "subscribed s" by (simp add: extending_promise_def)
  show ?thesis
  proof (cases c)
    case None
    with Pair sub assms show ?thesis by simp
  next
    case (Some x)
    from assms have "extending_promise (s\<lparr>pendingIds := p\<rparr>)" by simp
    then have "extending_promise (onChange_promise (s\<lparr>pendingIds := p\<rparr>) x)"
      by (rule onChange_extending_promise)
    with Pair Some sub show ?thesis by simp
  qed
qed

lemma step_awaiting_promise:
  assumes "awaiting_promise t0 cell s"
  shows "awaiting_promise t0 cell (step_promise s st) \<or> extending_promise (step_promise s st) \<or>
    aborted_promise t0 cell (step_promise s st)"
proof (cases st)
  case (Elapse d)
  with assms show ?thesis by simp
next
  case RunTimers
  with runTimers_awaiting_promise [OF assms] assms show ?thesis
    by (cases "t0 + BUSY_DELAY \<le> clock s") simp_all
next
  case (Notify ev)
  with notify_awaiting_promise [OF assms, of ev] show ?thesis by blast
qed

lemma step_extending_promise:
  assumes "extending_promise s"
  shows "extending_promise (step_promise s st) \<or> ended_promise (step_promise s st)"
proof (cases st)
  case (Elapse d)
  with assms show ?thesis by simp
next
  case RunTimers
  with runTimers_extending_promise [OF assms] show ?thesis by simp
next
  case (Notify ev)
  with notify_extending_promise [OF assms, of ev] show ?thesis by simp
qed

lemma step_phases_promise:
  "phases_promise t0 cell s \<Longrightarrow> phases_promise t0 cell (step_promise s st)"
  unfolding phases_promise_def
  using step_awaiting_promise step_extending_promise step_aborted_promise step_ended_promise
  by blast

lemma run_phases_promise:
  "phases_promise t0 cell s \<Longrightarrow> phases_promise t0 cell (run_promise s steps)"
  unfolding run_promise_def
  by (induction steps arbitrary: s) (simp_all add: step_phases_promise)

lemma phases_new_promise:
  "phases_promise t cell (run_promise (newUserAction_promise uuid cell t) steps)"
  by (rule run_phases_promise) (simp add: phases_promise_def awaiting_new_promise)

lemma run_promise_Cons: "run_promise s (st # steps) = run_promise (step_promise s st) steps"
  by (simp add: run_promise_def)

lemma run_aborted_promise:
  "aborted_promise t0 cell s \<Longrightarrow> aborted_promise t0 cell (run_promise s steps)"
  unfolding run_promise_def
  by (induction steps arbitrary: s) (simp_all add: step_aborted_promise)

lemma quiet_pending_promise:
  "snd (trackPageChanges_promise {} ev) = None \<Longrightarrow> trackPageChanges_promise {} ev = ({}, None)"
  by (cases ev) (simp_all add: Let_def split: if_splits)

lemma quiet_step_promise:
  assumes "awaiting_promise t0 cell s" and "pendingIds s = {}" and "quiet_promise st"
  shows "(awaiting_promise t0 cell (step_promise s st) \<and> pendingIds (step_promise s st) = {}) \<or>
         aborted_promise t0 cell (step_promise s st)"
proof (cases st)
  case (Elapse d)
  with assms show ?thesis by simp
next
  case RunTimers
  with runTimers_awaiting_promise [OF assms(1)] assms show ?thesis
    by (cases "t0 + BUSY_DELAY \<le> clock s") simp_all
next
  case (Notify ev)
  with assms(3) have "trackPageChanges_promise {} ev = ({}, None)"
    by (simp add: quiet_promise_def quiet_pending_promise)
  with assms Notify show ?thesis
    by (simp add: awaiting_promise_def)
qed

lemma quiet_run_promise:
  assumes "awaiting_promise t0 cell s" and "pendingIds s = {}" and "list_all quiet_promise pre"
  shows "(awaiting_promise t0 cell (run_promise s pre) \<and> pendingIds (run_promise s pre) = {}) \<or>
         aborted_promise t0 cell (run_promise s pre)"
  using assms
proof (induction pre arbitrary: s)
  case Nil
  then show ?case by (simp add: run_promise_def)
next
  case (Cons st pre)
  from Cons.prems have q: "quiet_promise st" and qs: "list_all quiet_promise pre" by simp_all
  from quiet_step_promise [OF Cons.prems(1,2) q]
  show ?case
  proof
    assume "awaiting_promise t0 cell (step_promise s st) \<and> pendingIds (step_promise s st) = {}"
    with Cons.IH [of "step_promise s st"] qs show ?thesis
      by (simp add: run_promise_Cons)
  next
    assume "aborted_promise t0 cell (step_promise s st)"
    then show ?thesis
      by (simp add: run_promise_Cons run_aborted_promise)
  qed
qed

lemma resolved_phases_promise:
  assumes "phases_promise t0 cell s"
  shows "length (resolved s) \<le> 1 \<and> (resolved s \<noteq> [] \<longrightarrow> userActionId s = cell \<or> userActionId s = None)
    \<and> (resolved s \<noteq> [] \<and> snd (last (resolved s)) \<noteq> None \<longrightarrow> userActionId s = None)"
proof -
  from assms consider "awaiting_promise t0 cell s" | "extending_promise s"
    | "aborted_promise t0 cell s" | "ended_promise s"
    unfolding phases_promise_def by blast
  then show ?thesis
  proof cases
    case 1
    then show ?thesis by (simp add: awaiting_promise_def)
  next
    case 2
    then show ?thesis by (simp add: extending_promise_def)
  next
    case 3
    then have r: "resolved s = [(fst (last (resolved s)), None)]" and "userActionId s = cell"
      by (simp_all add: aborted_promise_def)
    from r obtain at where "resolved s = [(at, None)]" ..
    with \<open>userActionId s = cell\<close> show ?thesis by simp
  next
    case 4
    then show ?thesis by (simp add: ended_promise_def)
  qed
qed


subsection \<open>At most one terminal event and the duration\<close>

text \<open>The definitions that a run on concrete steps unfolds.\<close>

lemmas obs_simps =
  run_obs_def newUserAction_obs_def runTimers_obs_def validationTimeout_obs_def
  idleTimeout_obs_def onChange_obs_def notifyChange_obs_def BUSY_DELAY_def IDLE_DELAY_def
  Let_def startUserActionCollection_obs_def clickContext_def

lemmas promise_simps =
  run_promise_def newUserAction_promise_def runTimers_promise_def validationTimeout_promise_def
  idleTimeout_promise_def onChange_promise_def notifyChange_promise_def
  startUserActionCollection_promise_def

text \<open>
  C1: whatever the steps after the click, in the revision with an observable the events
  that \<open>newUserAction\<close> notifies hold at most one terminal event (aborted or ended), nothing
  at all is notified after a terminal event, so no extended event is, and every event
  carries the id of the interaction; in the revision with a promise \<open>resolve\<close> is called at
  most once.
\<close>

theorem one_terminal_event:
  "(let evs = map snd (result (run_obs (newUserAction_obs uuid t) steps)) in
      length (filter isTerminal evs) \<le> 1 \<and>
      (\<forall>pre e post. evs = pre @ e # post \<and> isTerminal e \<longrightarrow> post = []) \<and>
      list_all (\<lambda>e. eventId e = uuid) evs) \<and>
   length (resolved (run_promise (newUserAction_promise uuid cell t) steps)) \<le> 1"
proof -
  let ?s = "run_obs (newUserAction_obs uuid t) steps"
  from phases_butlast_obs [OF phases_new_obs, of uuid t steps]
  have b: "list_all isExtended (butlast (map snd (result ?s)))"
    and i: "list_all (\<lambda>e. eventId e = uuid) (map snd (result ?s))"
    by simp_all
  from terminal_last [OF b] i
  have "let evs = map snd (result ?s) in
      length (filter isTerminal evs) \<le> 1 \<and>
      (\<forall>pre e post. evs = pre @ e # post \<and> isTerminal e \<longrightarrow> post = []) \<and>
      list_all (\<lambda>e. eventId e = uuid) evs"
    unfolding Let_def by blast
  moreover from resolved_phases_promise [OF phases_new_promise [of t cell uuid steps]]
  have "length (resolved (run_promise (newUserAction_promise uuid cell t) steps)) \<le> 1"
    by simp
  ultimately show ?thesis by simp
qed

text \<open>
  A mutation at 20, the idle timer at 120, then another mutation and the timers again: one
  extended event and one ended event, one call of \<open>resolve\<close>.
\<close>

theorem one_terminal_event_witness:
  "map snd (result (run_obs (newUserAction_obs ''id1'' 0)
     [Elapse 20, Notify DOM_MUTATED, Elapse 100, RunTimers, Notify DOM_MUTATED, Elapse 300,
      RunTimers])) =
     [Extended ''id1'' 20 ''dom_mutated'' None, Ended ''id1'' 20] \<and>
   length (filter isTerminal [Extended ''id1'' 20 ''dom_mutated'' None, Ended ''id1'' 20]) \<le> 1 \<and>
   resolved (run_promise (newUserAction_promise ''id1'' None 0)
     [Elapse 20, Notify DOM_MUTATED, Elapse 100, RunTimers, Notify DOM_MUTATED, Elapse 300,
      RunTimers]) = [(120, Some (''id1'', 20))]"
  using one_terminal_event [of "''id1''" 0
      "[Elapse 20, Notify DOM_MUTATED, Elapse 100, RunTimers, Notify DOM_MUTATED, Elapse 300,
        RunTimers]" None]
  by (simp add: obs_simps promise_simps)

text \<open>
  Click at 0, one mutation at 20, no request pending, the idle timer runs at 120: the
  completed action is published at 120 and its duration is 20, not 120.
\<close>

theorem ended_duration_counterexample:
  "startUserActionCollection_obs tagOnly ''id1'' None 0
     [Elapse 20, Notify DOM_MUTATED, Elapse 100, RunTimers] =
   [(20, \<lparr>ua_startTime = 20,
          ua_context = \<lparr>ctx_content = None, ctx_element = None, ctx_details = None,
                        ctx_reason = Some ''dom_mutated''\<rparr>,
          ua_duration = Some 0, ua_name = ''click extended'', ua_userActionId = Some ''id1'',
          ua_id = None\<rparr>),
    (120, \<lparr>ua_startTime = 0,
           ua_context = \<lparr>ctx_content = None, ctx_element = None, ctx_details = None,
                         ctx_reason = None\<rparr>,
           ua_duration = Some 20, ua_name = ''click'', ua_userActionId = None,
           ua_id = Some ''id1''\<rparr>)]"
  by (simp add: obs_simps)

text \<open>
  Click at 0, a request from 10 to 250, the idle timer runs at 350: the duration is 250.
\<close>

theorem ended_duration_witness:
  "startUserActionCollection_obs tagOnly ''id1'' None 0
     [Elapse 10, Notify (REQUEST_COLLECTED exampleStart), Elapse 240,
      Notify (REQUEST_COLLECTED exampleEnd), Elapse 100, RunTimers] =
   [(10, \<lparr>ua_startTime = 10,
          ua_context = \<lparr>ctx_content = None, ctx_element = None,
                        ctx_details = Some [''Url: https://x.test/a''],
                        ctx_reason = Some ''request_start''\<rparr>,
          ua_duration = Some 0, ua_name = ''click extended'', ua_userActionId = Some ''id1'',
          ua_id = None\<rparr>),
    (250, \<lparr>ua_startTime = 250,
          ua_context = \<lparr>ctx_content = None, ctx_element = None,
                        ctx_details = Some [''Url: https://x.test/a''],
                        ctx_reason = Some ''request_end''\<rparr>,
          ua_duration = Some 0, ua_name = ''click extended'', ua_userActionId = Some ''id1'',
          ua_id = None\<rparr>)] @
   [(350, \<lparr>ua_startTime = 0,
           ua_context = \<lparr>ctx_content = None, ctx_element = None, ctx_details = None,
                         ctx_reason = None\<rparr>,
           ua_duration = Some 250, ua_name = ''click'', ua_userActionId = None,
           ua_id = Some ''id1''\<rparr>)] \<and>
   Some (250 :: int) = Some (250 - 0) \<and> 250 + IDLE_DELAY \<le> 350"
proof -
  have h: "startUserActionCollection_obs tagOnly ''id1'' None 0
     [Elapse 10, Notify (REQUEST_COLLECTED exampleStart), Elapse 240,
      Notify (REQUEST_COLLECTED exampleEnd), Elapse 100, RunTimers] =
   [(10, \<lparr>ua_startTime = 10,
          ua_context = \<lparr>ctx_content = None, ctx_element = None,
                        ctx_details = Some [''Url: https://x.test/a''],
                        ctx_reason = Some ''request_start''\<rparr>,
          ua_duration = Some 0, ua_name = ''click extended'', ua_userActionId = Some ''id1'',
          ua_id = None\<rparr>),
    (250, \<lparr>ua_startTime = 250,
          ua_context = \<lparr>ctx_content = None, ctx_element = None,
                        ctx_details = Some [''Url: https://x.test/a''],
                        ctx_reason = Some ''request_end''\<rparr>,
          ua_duration = Some 0, ua_name = ''click extended'', ua_userActionId = Some ''id1'',
          ua_id = None\<rparr>)] @
   [(350, \<lparr>ua_startTime = 0,
           ua_context = \<lparr>ctx_content = None, ctx_element = None, ctx_details = None,
                         ctx_reason = None\<rparr>,
           ua_duration = Some 250, ua_name = ''click'', ua_userActionId = None,
           ua_id = Some ''id1''\<rparr>)]"
    by (simp add: obs_simps exampleStart_def exampleEnd_def exampleDetails_def)
  from ended_duration [OF h] h show ?thesis by simp
qed

section \<open>Properties of the page\<close>

subsection \<open>One step of one interaction, with the variable handed in\<close>

lemma sound_new_promise: "sound_promise (newUserAction_promise uuid cell t)"
  by (simp add: sound_promise_def newUserAction_promise_def)

lemma elapse_cell_promise:
  assumes "sound_promise a"
  shows "sound_promise (step_promise (a\<lparr>userActionId := c\<rparr>) (Elapse d)) \<and>
         userActionId (step_promise (a\<lparr>userActionId := c\<rparr>) (Elapse d)) = c \<and>
         signalled_promise (step_promise (a\<lparr>userActionId := c\<rparr>) (Elapse d)) = signalled_promise a"
  using assms by (simp add: sound_promise_def signalled_promise_def)

lemma runTimers_cell_promise:
  assumes "sound_promise a"
  shows "sound_promise (runTimers_promise (a\<lparr>userActionId := c\<rparr>)) \<and>
         ((userActionId (runTimers_promise (a\<lparr>userActionId := c\<rparr>)) = c \<and>
           (signalled_promise a \<longrightarrow> signalled_promise (runTimers_promise (a\<lparr>userActionId := c\<rparr>)))) \<or>
          userActionId (runTimers_promise (a\<lparr>userActionId := c\<rparr>)) = None)"
proof (cases "validationTimeoutId a")
  case (Some d)
  with assms have i: "idleTimeoutId a = None" and sub: "subscribed a" and r: "resolved a = []"
    by (simp_all add: sound_promise_def)
  show ?thesis
  proof (cases "d \<le> clock a")
    case True
    with Some i have "runTimers_promise (a\<lparr>userActionId := c\<rparr>) =
        validationTimeout_promise (a\<lparr>userActionId := c\<rparr>)"
      by (simp add: runTimers_promise_def validationTimeout_promise_def)
    with Some i show ?thesis
      by (simp add: validationTimeout_promise_def sound_promise_def signalled_promise_def)
  next
    case False
    with Some i have "runTimers_promise (a\<lparr>userActionId := c\<rparr>) = a\<lparr>userActionId := c\<rparr>"
      by (simp add: runTimers_promise_def)
    with assms show ?thesis
      by (simp add: sound_promise_def signalled_promise_def)
  qed
next
  case None
  show ?thesis
  proof (cases "idleTimeoutId a")
    case n: None
    with None have "runTimers_promise (a\<lparr>userActionId := c\<rparr>) = a\<lparr>userActionId := c\<rparr>"
      by (simp add: runTimers_promise_def)
    with assms show ?thesis
      by (simp add: sound_promise_def signalled_promise_def)
  next
    case (Some p)
    obtain d e where p: "p = (d, e)" by (cases p)
    show ?thesis
    proof (cases "d \<le> clock a")
      case True
      with None Some p have "runTimers_promise (a\<lparr>userActionId := c\<rparr>) =
          idleTimeout_promise e (a\<lparr>userActionId := c\<rparr>)"
        by (simp add: runTimers_promise_def)
      with None show ?thesis
        by (simp add: idleTimeout_promise_def sound_promise_def)
    next
      case False
      with None Some p have "runTimers_promise (a\<lparr>userActionId := c\<rparr>) = a\<lparr>userActionId := c\<rparr>"
        by (simp add: runTimers_promise_def)
      with assms show ?thesis
        by (simp add: sound_promise_def signalled_promise_def)
    qed
  qed
qed

lemma notify_cell_promise:
  assumes "sound_promise a"
  shows "sound_promise (step_promise (a\<lparr>userActionId := c\<rparr>) (Notify ev)) \<and>
         ((userActionId (step_promise (a\<lparr>userActionId := c\<rparr>) (Notify ev)) = c \<and>
           signalled_promise (step_promise (a\<lparr>userActionId := c\<rparr>) (Notify ev)) = signalled_promise a) \<or>
          (userActionId (step_promise (a\<lparr>userActionId := c\<rparr>) (Notify ev)) = Some (actionId a) \<and>
           signalled_promise (step_promise (a\<lparr>userActionId := c\<rparr>) (Notify ev))))"
proof (cases "subscribed a")
  case False
  with assms show ?thesis by (simp add: sound_promise_def signalled_promise_def)
next
  case True
  with assms have r: "resolved a = []" by (simp add: sound_promise_def)
  obtain p ch where t: "trackPageChanges_promise (pendingIds a) ev = (p, ch)"
    by (cases "trackPageChanges_promise (pendingIds a) ev")
  show ?thesis
  proof (cases ch)
    case None
    with True t have "step_promise (a\<lparr>userActionId := c\<rparr>) (Notify ev) =
        a\<lparr>userActionId := c, pendingIds := p\<rparr>"
      by simp
    with assms show ?thesis
      by (simp add: sound_promise_def signalled_promise_def)
  next
    case (Some busy)
    with True t have "step_promise (a\<lparr>userActionId := c\<rparr>) (Notify ev) =
        onChange_promise (a\<lparr>userActionId := c, pendingIds := p\<rparr>) busy"
      by simp
    with True r show ?thesis
      by (simp add: onChange_promise_def Let_def sound_promise_def signalled_promise_def)
  qed
qed

lemma actionId_step_promise [simp]: "actionId (step_promise s st) = actionId s"
proof (cases st)
  case (Elapse d)
  then show ?thesis by simp
next
  case RunTimers
  then show ?thesis
    by (simp add: runTimers_promise_def validationTimeout_promise_def idleTimeout_promise_def
        Let_def split: option.splits prod.splits)
next
  case (Notify ev)
  then show ?thesis
    by (simp add: onChange_promise_def Let_def split: option.splits prod.splits)
qed

lemma step_cell_promise:
  assumes "sound_promise a"
  shows "sound_promise (step_promise (a\<lparr>userActionId := c\<rparr>) st) \<and>
         ((userActionId (step_promise (a\<lparr>userActionId := c\<rparr>) st) = c \<and>
           (signalled_promise a \<longrightarrow> signalled_promise (step_promise (a\<lparr>userActionId := c\<rparr>) st))) \<or>
          (userActionId (step_promise (a\<lparr>userActionId := c\<rparr>) st) = Some (actionId a) \<and>
           signalled_promise (step_promise (a\<lparr>userActionId := c\<rparr>) st)) \<or>
          userActionId (step_promise (a\<lparr>userActionId := c\<rparr>) st) = None)"
proof (cases st)
  case (Elapse d)
  with elapse_cell_promise [OF assms, of c d] show ?thesis by simp
next
  case RunTimers
  with runTimers_cell_promise [OF assms, of c] show ?thesis by auto
next
  case (Notify ev)
  with notify_cell_promise [OF assms, of c ev] show ?thesis by auto
qed


subsection \<open>One step of all interactions\<close>

lemma deliver_Cons:
  "deliver f c (a # as) st =
     (fst (deliver f (userActionId (f (a\<lparr>userActionId := c\<rparr>) st)) as st),
      f (a\<lparr>userActionId := c\<rparr>) st #
      snd (deliver f (userActionId (f (a\<lparr>userActionId := c\<rparr>) st)) as st))"
  by (simp add: Let_def split: prod.splits)

lemma bound_step_promise:
  assumes s: "sound_promise a" and b: "bound_promise c (pre @ a # as)"
  shows "bound_promise (userActionId (step_promise (a\<lparr>userActionId := c\<rparr>) st))
           ((pre @ [step_promise (a\<lparr>userActionId := c\<rparr>) st]) @ as)"
proof -
  let ?a = "step_promise (a\<lparr>userActionId := c\<rparr>) st"
  have id: "actionId ?a = actionId a" by simp
  from step_cell_promise [OF s, of c st]
  have "(userActionId ?a = c \<and> (signalled_promise a \<longrightarrow> signalled_promise ?a)) \<or>
      (userActionId ?a = Some (actionId a) \<and> signalled_promise ?a) \<or>
      userActionId ?a = None"
    by (rule conjunct2)
  then consider
      (same) "userActionId ?a = c" and "signalled_promise a \<longrightarrow> signalled_promise ?a"
    | (own) "userActionId ?a = Some (actionId a)" and "signalled_promise ?a"
    | (none) "userActionId ?a = None"
    by (elim disjE conjE) simp_all
  then show ?thesis
  proof cases
    case same
    show ?thesis
    proof (cases c)
      case None
      with same show ?thesis by (simp add: bound_promise_def)
    next
      case (Some x)
      with b obtain w where w: "w \<in> set (pre @ a # as)" and wx: "actionId w = x"
        and ws: "signalled_promise w"
        by (auto simp: bound_promise_def)
      show ?thesis
      proof (cases "w = a")
        case True
        with same ws wx id have "actionId ?a = x \<and> signalled_promise ?a" by simp
        with same Some show ?thesis by (auto simp: bound_promise_def)
      next
        case False
        with w have "w \<in> set ((pre @ [?a]) @ as)" by auto
        with same Some wx ws show ?thesis
          unfolding bound_promise_def by (simp only: option.case) blast
      qed
    qed
  next
    case own
    with id show ?thesis by (auto simp: bound_promise_def)
  next
    case none
    then show ?thesis by (simp add: bound_promise_def)
  qed
qed

lemma deliver_bound_promise:
  assumes "\<forall>a \<in> set as. sound_promise a" and "bound_promise c (pre @ as)"
  shows "(\<forall>a \<in> set (snd (deliver step_promise c as st)). sound_promise a) \<and>
         bound_promise (fst (deliver step_promise c as st))
           (pre @ snd (deliver step_promise c as st))"
  using assms
proof (induction as arbitrary: c pre)
  case Nil
  then show ?case by simp
next
  case (Cons a as)
  let ?a = "step_promise (a\<lparr>userActionId := c\<rparr>) st"
  from Cons.prems have sa: "sound_promise a" and sas: "\<forall>a \<in> set as. sound_promise a"
    by simp_all
  from step_cell_promise [OF sa, of c st] have sa': "sound_promise ?a" by blast
  from bound_step_promise [OF sa Cons.prems(2)]
  have b': "bound_promise (userActionId ?a) ((pre @ [?a]) @ as)" .
  have eq: "deliver step_promise c (a # as) st =
      (fst (deliver step_promise (userActionId ?a) as st),
       ?a # snd (deliver step_promise (userActionId ?a) as st))"
    by (rule deliver_Cons)
  from Cons.IH [OF sas b'] sa' show ?case
    unfolding eq by simp
qed

lemma pageStep_promise_Env:
  "pageStep_promise pg (Env st) =
     pg\<lparr>pageClock := pageClock pg + (case st of Elapse d \<Rightarrow> int d | _ \<Rightarrow> 0),
       userActionIdVar := fst (deliver step_promise (userActionIdVar pg) (actions pg) st),
       actions := snd (deliver step_promise (userActionIdVar pg) (actions pg) st)\<rparr>"
  by (simp split: prod.splits)

lemma pageStep_obs_Env:
  "pageStep_obs pg (Env st) =
     pg\<lparr>pageClock := pageClock pg + (case st of Elapse d \<Rightarrow> int d | _ \<Rightarrow> 0),
       userActionIdVar := fst (deliver step_obs (userActionIdVar pg) (actions pg) st),
       actions := snd (deliver step_obs (userActionIdVar pg) (actions pg) st)\<rparr>"
  by (simp split: prod.splits)

lemma page_ok_load: "page_ok_promise (loadPage t)"
  by (simp add: page_ok_promise_def loadPage_def bound_promise_def)

lemma page_ok_step:
  assumes "page_ok_promise pg"
  shows "page_ok_promise (pageStep_promise pg st)"
proof (cases st)
  case (Click uuid)
  from assms have "bound_promise (userActionIdVar pg)
      (actions pg @ [newUserAction_promise uuid (userActionIdVar pg) (pageClock pg)])"
    by (auto simp: page_ok_promise_def bound_promise_def split: option.splits)
  moreover have "userActionId (newUserAction_promise uuid (userActionIdVar pg) (pageClock pg)) =
      userActionIdVar pg"
    by (simp add: newUserAction_promise_def)
  ultimately show ?thesis
    using assms Click by (simp add: page_ok_promise_def Let_def sound_new_promise)
next
  case (Env e)
  from assms have "\<forall>a \<in> set (actions pg). sound_promise a"
    and "bound_promise (userActionIdVar pg) ([] @ actions pg)"
    by (simp_all add: page_ok_promise_def)
  from deliver_bound_promise [OF this, of e] Env show ?thesis
    by (simp add: page_ok_promise_def pageStep_promise_Env del: pageStep_promise.simps)
qed

lemma page_ok_run: "page_ok_promise pg \<Longrightarrow> page_ok_promise (runPage_promise pg steps)"
  unfolding runPage_promise_def
  by (induction steps arbitrary: pg) (simp_all add: page_ok_step)

lemma bound_run_promise:
  "bound_promise (userActionIdVar (runPage_promise (loadPage t) steps))
     (actions (runPage_promise (loadPage t) steps))"
  using page_ok_run [OF page_ok_load, of t steps] by (simp add: page_ok_promise_def)


lemma runPage_promise_Cons:
  "runPage_promise pg (st # steps) = runPage_promise (pageStep_promise pg st) steps"
  by (simp add: runPage_promise_def)

lemma single_page_promise:
  assumes "userActionIdVar pg = userActionId a" and "actions pg = [a]"
  shows "userActionIdVar (runPage_promise pg (map Env sts)) = userActionId (run_promise a sts) \<and>
         actions (runPage_promise pg (map Env sts)) = [run_promise a sts]"
  using assms
proof (induction sts arbitrary: pg a)
  case Nil
  then show ?case by (simp add: runPage_promise_def run_promise_def)
next
  case (Cons st sts)
  let ?pg = "pageStep_promise pg (Env st)"
  from Cons.prems have "userActionIdVar ?pg = userActionId (step_promise a st)"
    and "actions ?pg = [step_promise a st]"
    by (simp_all add: pageStep_promise_Env Let_def del: pageStep_promise.simps)
  from Cons.IH [OF this] show ?case
    by (simp only: list.map runPage_promise_Cons run_promise_Cons)
qed

lemma single_click_promise:
  "userActionIdVar (runPage_promise (loadPage t) (Click uuid # map Env sts)) =
     userActionId (run_promise (newUserAction_promise uuid None t) sts) \<and>
   actions (runPage_promise (loadPage t) (Click uuid # map Env sts)) =
     [run_promise (newUserAction_promise uuid None t) sts]"
proof -
  let ?pg = "pageStep_promise (loadPage t) (Click uuid)"
  have "userActionIdVar ?pg = userActionId (newUserAction_promise uuid None t)"
    and "actions ?pg = [newUserAction_promise uuid None t]"
    by (simp_all add: loadPage_def Let_def newUserAction_promise_def)
  from single_page_promise [OF this, of sts] show ?thesis
    by (simp only: runPage_promise_Cons)
qed

lemma deliver_None:
  assumes "\<And>a c. userActionId (f (a\<lparr>userActionId := c\<rparr>) st) = c \<or>
                  userActionId (f (a\<lparr>userActionId := c\<rparr>) st) = None"
  shows "fst (deliver f None as st) = None"
proof (induction as)
  case Nil
  then show ?case by simp
next
  case (Cons a as)
  from assms [where a = a and c = None] have "userActionId (f (a\<lparr>userActionId := None\<rparr>) st) = None"
    by simp
  with Cons show ?case by (simp only: deliver_Cons fst_conv)
qed

lemma deliver_cleared:
  assumes keep: "\<And>a c. userActionId (f (a\<lparr>userActionId := c\<rparr>) st) = c \<or>
                  userActionId (f (a\<lparr>userActionId := c\<rparr>) st) = None"
    and clear: "\<And>a c. P a \<Longrightarrow> userActionId (f (a\<lparr>userActionId := c\<rparr>) st) = None"
    and "\<exists>a \<in> set as. P a"
  shows "fst (deliver f c as st) = None"
  using assms(3)
proof (induction as arbitrary: c)
  case Nil
  then show ?case by simp
next
  case (Cons a as)
  show ?case
  proof (cases "P a")
    case True
    from clear [OF this, where c = c] deliver_None [where f = f and st = st and as = as, OF keep] show ?thesis
      by (simp only: deliver_Cons fst_conv)
  next
    case False
    with Cons.prems have "\<exists>a \<in> set as. P a" by simp
    from Cons.IH [OF this] show ?thesis
      by (simp only: deliver_Cons fst_conv)
  qed
qed

lemma runTimers_keep_promise:
  "userActionId (step_promise (a\<lparr>userActionId := c\<rparr>) RunTimers) = c \<or>
   userActionId (step_promise (a\<lparr>userActionId := c\<rparr>) RunTimers) = None"
  by (simp add: runTimers_promise_def validationTimeout_promise_def idleTimeout_promise_def
      Let_def split: option.splits prod.splits)

lemma runTimers_clear_promise:
  "idleDue a \<Longrightarrow> userActionId (step_promise (a\<lparr>userActionId := c\<rparr>) RunTimers) = None"
  by (simp add: idleDue_def runTimers_promise_def idleTimeout_promise_def
      split: option.splits prod.splits)

lemma runTimers_keep_obs:
  "userActionId (step_obs (a\<lparr>userActionId := c\<rparr>) RunTimers) = c \<or>
   userActionId (step_obs (a\<lparr>userActionId := c\<rparr>) RunTimers) = None"
  by (simp add: runTimers_obs_def validationTimeout_obs_def idleTimeout_obs_def
      Let_def split: option.splits prod.splits)

lemma runTimers_clear_obs:
  "idleDue a \<Longrightarrow> userActionId (step_obs (a\<lparr>userActionId := c\<rparr>) RunTimers) = None"
  by (simp add: idleDue_def runTimers_obs_def idleTimeout_obs_def
      split: option.splits prod.splits)

lemma deliver_snoc:
  "fst (deliver f c (as @ [a]) st) =
     userActionId (f (a\<lparr>userActionId := fst (deliver f c as st)\<rparr>) st)"
proof (induction as arbitrary: c)
  case Nil
  then show ?case by (simp add: Let_def)
next
  case (Cons b as)
  have "fst (deliver f c ((b # as) @ [a]) st) =
      fst (deliver f (userActionId (f (b\<lparr>userActionId := c\<rparr>) st)) (as @ [a]) st)"
    by (simp only: append_Cons deliver_Cons fst_conv)
  also have "\<dots> = userActionId (f (a\<lparr>userActionId :=
      fst (deliver f (userActionId (f (b\<lparr>userActionId := c\<rparr>) st)) as st)\<rparr>) st)"
    by (rule Cons.IH)
  also have "fst (deliver f (userActionId (f (b\<lparr>userActionId := c\<rparr>) st)) as st) =
      fst (deliver f c (b # as) st)"
    by (simp only: deliver_Cons fst_conv)
  finally show ?case .
qed

lemma signal_sets_promise:
  assumes "subscribed a" and "trackPageChanges_promise (pendingIds a) ev = (p, Some busy)"
  shows "userActionId (step_promise (a\<lparr>userActionId := c\<rparr>) (Notify ev)) = Some (actionId a)"
  using assms by (simp add: onChange_promise_def Let_def)


subsection \<open>The current id\<close>

lemmas page_simps =
  runPage_promise_def runPage_obs_def loadPage_def getUserActionId_def Let_def
  BUSY_DELAY_def IDLE_DELAY_def
  newUserAction_promise_def runTimers_promise_def validationTimeout_promise_def
  idleTimeout_promise_def onChange_promise_def notifyChange_promise_def
  newUserAction_obs_def runTimers_obs_def validationTimeout_obs_def
  idleTimeout_obs_def onChange_obs_def notifyChange_obs_def





end
